theory Spec2Isabelle
  imports Complex_Main
begin

section \<open>Values of the file format\<close>

text \<open>
  \<open>Event.from_dict\<close> and \<open>Macro.from_dict\<close> receive what \<open>json.load\<close> returns: \<open>None\<close>,
  booleans, integers, floats, strings, lists and dictionaries with string keys. A dictionary
  is an association list in insertion order, read with \<open>map_of\<close>. Python's \<open>int\<close> is unbounded
  (\<open>int\<close>); a \<open>float\<close> is represented by the real number it denotes (\<open>nan\<close> and the two
  infinities have no representation here).
\<close>

datatype jval =
    JNone
  | JBool bool
  | JInt int
  | JFloat real
  | JStr string
  | JList "jval list"
  | JDict "(string \<times> jval) list"

text \<open>
  The exceptions the codec can raise. Each \<open>ValueError\<close> of the source is one constructor,
  carrying the values its message is formatted from.
\<close>

datatype py_error =
    MissingRequiredFields
      \<comment> \<open>\<open>ValueError("Required fields (type, timestamp) are missing")\<close>\<close>
  | InvalidEventType jval
      \<comment> \<open>\<open>ValueError(f"Invalid event type: {d['type']}")\<close>\<close>
  | TimestampNotNumber jval
      \<comment> \<open>\<open>ValueError(f"timestamp must be a number: {type(d['timestamp'])}")\<close>\<close>
  | OverflowError
      \<comment> \<open>raised by \<open>float\<close>: int too large to convert to float\<close>
  | TypeError
      \<comment> \<open>raised by \<open>in\<close> or by a string subscript on a value that has none\<close>
  | NotADictionary
      \<comment> \<open>\<open>ValueError("Data must be in dictionary format")\<close>\<close>
  | MissingEvents
      \<comment> \<open>\<open>ValueError("Required field (events) is missing")\<close>\<close>
  | EventsNotList
      \<comment> \<open>\<open>ValueError("events must be in list format")\<close>\<close>
  | FailedToLoadEvent nat py_error
      \<comment> \<open>\<open>ValueError(f"Failed to load event [{i}]: {str(ex)}")\<close>\<close>

fun is_ValueError :: "py_error \<Rightarrow> bool" where
  "is_ValueError OverflowError = False"
| "is_ValueError TypeError = False"
| "is_ValueError _ = True"

text \<open>The field names a \<open>ValueError\<close> message of \<open>Event.from_dict\<close> mentions.\<close>

fun cited_fields :: "py_error \<Rightarrow> string list" where
  "cited_fields MissingRequiredFields = [''type'', ''timestamp'']"
| "cited_fields (InvalidEventType _) = [''type'']"
| "cited_fields (TimestampNotNumber _) = [''timestamp'']"
| "cited_fields _ = []"

subsection \<open>Python operators on these values\<close>

fun starts_with :: "string \<Rightarrow> string \<Rightarrow> bool" where
  "starts_with _ [] = True"
| "starts_with [] (p # ps) = False"
| "starts_with (c # cs) (p # ps) = (c = p \<and> starts_with cs ps)"

fun str_contains :: "string \<Rightarrow> string \<Rightarrow> bool" where
  "str_contains [] sub = (sub = [])"
| "str_contains (c # cs) sub = (starts_with (c # cs) sub \<or> str_contains cs sub)"

text \<open>
  \<open>k in d\<close> for a string \<open>k\<close>: key membership in a dictionary, element membership in a list,
  substring test in a string, \<open>TypeError\<close> on anything else.
\<close>

fun py_in :: "string \<Rightarrow> jval \<Rightarrow> py_error + bool" where
  "py_in k (JDict d) = Inr (map_of d k \<noteq> None)"
| "py_in k (JList xs) = Inr (JStr k \<in> set xs)"
| "py_in k (JStr s) = Inr (str_contains s k)"
| "py_in k _ = Inl TypeError"

text \<open>\<open>d[k]\<close> for a string \<open>k\<close>; only reached in the source after \<open>k in d\<close> held.\<close>

fun py_getitem :: "jval \<Rightarrow> string \<Rightarrow> py_error + jval" where
  "py_getitem (JDict d) k = (case map_of d k of Some v \<Rightarrow> Inr v | None \<Rightarrow> Inl TypeError)"
| "py_getitem _ k = Inl TypeError"

text \<open>\<open>d.get(k)\<close> and \<open>d.get(k, default)\<close> on a dictionary.\<close>

definition dict_get :: "(string \<times> jval) list \<Rightarrow> string \<Rightarrow> jval" where
  "dict_get d k = (case map_of d k of Some v \<Rightarrow> v | None \<Rightarrow> JNone)"

definition dict_get_default :: "(string \<times> jval) list \<Rightarrow> string \<Rightarrow> jval \<Rightarrow> jval" where
  "dict_get_default d k dflt = (case map_of d k of Some v \<Rightarrow> v | None \<Rightarrow> dflt)"

text \<open>\<open>isinstance(v, (int, float))\<close>; \<open>bool\<close> is a subclass of \<open>int\<close> in Python.\<close>

fun is_int_or_float :: "jval \<Rightarrow> bool" where
  "is_int_or_float (JInt _) = True"
| "is_int_or_float (JFloat _) = True"
| "is_int_or_float (JBool _) = True"
| "is_int_or_float _ = False"

text \<open>\<open>int.bit_length()\<close> of a non-negative integer.\<close>

function bit_length :: "int \<Rightarrow> nat" where
  "bit_length a = (if a \<le> 0 then 0 else Suc (bit_length (a div 2)))"
  by pat_completeness auto
termination
  by (relation "measure nat") auto

declare bit_length.simps [simp del]

text \<open>
  \<open>float(i)\<close> for an integer: the nearest double, ties to the even 53-bit significand, and
  \<open>OverflowError\<close> when the rounded magnitude reaches \<open>2 ^ 1024\<close>.
\<close>

definition float_of_int :: "int \<Rightarrow> py_error + real" where
  "float_of_int i =
     (let a = \<bar>i\<bar>;
          sh = bit_length a - 53;
          q = a div 2 ^ sh;
          r = a mod 2 ^ sh;
          q' = (if 0 < sh \<and> (2 ^ sh < 2 * r \<or> (2 * r = 2 ^ sh \<and> odd q)) then q + 1 else q);
          m = q' * 2 ^ sh
      in if 2 ^ 1024 \<le> m then Inl OverflowError
         else Inr (real_of_int (if i < 0 then - m else m)))"

text \<open>\<open>float(v)\<close> after \<open>isinstance(v, (int, float))\<close> held.\<close>

fun py_float :: "jval \<Rightarrow> py_error + real" where
  "py_float (JFloat r) = Inr r"
| "py_float (JInt i) = float_of_int i"
| "py_float (JBool b) = Inr (if b then 1 else 0)"
| "py_float _ = Inl TypeError"

section \<open>Data model\<close>

datatype EventType = MOUSE_MOVE | MOUSE_CLICK | MOUSE_SCROLL | KEY_PRESS | KEY_RELEASE

fun EventType_value :: "EventType \<Rightarrow> string" where
  "EventType_value MOUSE_MOVE = ''mouse_move''"
| "EventType_value MOUSE_CLICK = ''mouse_click''"
| "EventType_value MOUSE_SCROLL = ''mouse_scroll''"
| "EventType_value KEY_PRESS = ''key_press''"
| "EventType_value KEY_RELEASE = ''key_release''"

text \<open>\<open>EventType(v)\<close>: the member whose value equals \<open>v\<close>, \<open>None\<close> where Python raises.\<close>

definition EventType_of :: "jval \<Rightarrow> EventType option" where
  "EventType_of v =
     (case v of
        JStr s \<Rightarrow>
          find (\<lambda>t. EventType_value t = s)
            [MOUSE_MOVE, MOUSE_CLICK, MOUSE_SCROLL, KEY_PRESS, KEY_RELEASE]
      | _ \<Rightarrow> None)"

text \<open>
  The dataclass \<open>Event\<close>. The optional fields are annotated \<open>Optional[int]\<close>, \<open>Optional[str]\<close>
  and \<open>Optional[bool]\<close>, but \<open>from_dict\<close> stores whatever \<open>d.get\<close> returns, so each holds a
  \<open>jval\<close>, with \<open>JNone\<close> for \<open>None\<close>. The fields carry the prefix \<open>e_\<close>.
\<close>

record Event =
  e_type :: EventType
  e_timestamp :: real
  e_x :: jval
  e_y :: jval
  e_button :: jval
  e_key :: jval
  e_pressed :: jval
  e_scroll_dx :: jval
  e_scroll_dy :: jval

text \<open>The dataclass \<open>Macro\<close> (the spec's Timeline); fields carry the prefix \<open>m_\<close>.\<close>

record Macro =
  m_name :: jval
  m_events :: "Event list"
  m_created_at :: jval

section \<open>Codec\<close>

definition Event_to_dict :: "Event \<Rightarrow> jval" where
  "Event_to_dict e =
     JDict ([(''type'', JStr (EventType_value (e_type e))),
             (''timestamp'', JFloat (e_timestamp e))]
            @ filter (\<lambda>(k, v). v \<noteq> JNone)
                [(''x'', e_x e), (''y'', e_y e), (''button'', e_button e), (''key'', e_key e),
                 (''pressed'', e_pressed e), (''scroll_dx'', e_scroll_dx e),
                 (''scroll_dy'', e_scroll_dy e)])"

text \<open>
  \<open>Event.from_dict\<close> on any value: the membership tests and subscripts raise \<open>TypeError\<close>
  on a value that is not a dictionary, as they do in Python.
\<close>

definition Event_from_dict :: "jval \<Rightarrow> py_error + Event" where
  "Event_from_dict d =
     (case py_in ''type'' d of
        Inl ex \<Rightarrow> Inl ex
      | Inr False \<Rightarrow> Inl MissingRequiredFields
      | Inr True \<Rightarrow>
     (case py_in ''timestamp'' d of
        Inl ex \<Rightarrow> Inl ex
      | Inr False \<Rightarrow> Inl MissingRequiredFields
      | Inr True \<Rightarrow>
     (case py_getitem d ''type'' of
        Inl ex \<Rightarrow> Inl ex
      | Inr tv \<Rightarrow>
     (case EventType_of tv of
        None \<Rightarrow> Inl (InvalidEventType tv)
      | Some event_type \<Rightarrow>
     (case py_getitem d ''timestamp'' of
        Inl ex \<Rightarrow> Inl ex
      | Inr ts \<Rightarrow>
          if \<not> is_int_or_float ts then Inl (TimestampNotNumber ts)
          else
     (case py_float ts of
        Inl ex \<Rightarrow> Inl ex
      | Inr f \<Rightarrow>
     (case d of
        JDict kv \<Rightarrow>
          Inr \<lparr>e_type = event_type, e_timestamp = f,
               e_x = dict_get kv ''x'', e_y = dict_get kv ''y'',
               e_button = dict_get kv ''button'', e_key = dict_get kv ''key'',
               e_pressed = dict_get kv ''pressed'',
               e_scroll_dx = dict_get kv ''scroll_dx'',
               e_scroll_dy = dict_get kv ''scroll_dy''\<rparr>
      | _ \<Rightarrow> Inl TypeError)))))))"

definition Macro_to_dict :: "Macro \<Rightarrow> jval" where
  "Macro_to_dict m =
     JDict [(''name'', m_name m),
            (''created_at'', m_created_at m),
            (''events'', JList (map Event_to_dict (m_events m)))]"

text \<open>
  The loop of \<open>Macro.from_dict\<close>: \<open>i\<close> is the index \<open>enumerate\<close> supplies, \<open>acc\<close> the list
  \<open>events\<close> built so far. Any exception of \<open>Event.from_dict\<close> is caught and re-raised as
  the \<open>ValueError\<close> that names the index.
\<close>

fun load_events :: "nat \<Rightarrow> jval list \<Rightarrow> Event list \<Rightarrow> py_error + Event list" where
  "load_events i [] acc = Inr acc"
| "load_events i (e # es) acc =
     (case Event_from_dict e of
        Inl ex \<Rightarrow> Inl (FailedToLoadEvent i ex)
      | Inr ev \<Rightarrow> load_events (Suc i) es (acc @ [ev]))"

definition Macro_from_dict :: "jval \<Rightarrow> py_error + Macro" where
  "Macro_from_dict d =
     (case d of
        JDict kv \<Rightarrow>
          (case map_of kv ''events'' of
             None \<Rightarrow> Inl MissingEvents
           | Some (JList es) \<Rightarrow>
               (case load_events 0 es [] of
                  Inl ex \<Rightarrow> Inl ex
                | Inr evs \<Rightarrow>
                    Inr \<lparr>m_name = dict_get_default kv ''name'' (JStr ''Untitled''),
                         m_events = evs,
                         m_created_at = dict_get_default kv ''created_at'' (JStr '''')\<rparr>)
           | Some _ \<Rightarrow> Inl EventsNotList)
      | _ \<Rightarrow> Inl NotADictionary)"

text \<open>\<open>Macro.duration\<close>.\<close>

definition duration :: "Macro \<Rightarrow> real" where
  "duration m = (if m_events m = [] then 0 else e_timestamp (last (m_events m)))"

section \<open>Keys\<close>

text \<open>
  The enum \<open>Key\<close> of the input library, with the members the source names (\<open>Key.space\<close>,
  \<open>Key.esc\<close>, ...). The attribute \<open>name\<close> of a member of a Python \<open>Enum\<close> is the identifier
  it is declared under, so \<open>Key.esc.name\<close> is \<open>"esc"\<close>. An identifier declared with the value of
  an earlier one is an alias: it denotes the earlier member and has that member's name. In
  the library's X11 backend \<open>shift_l\<close>, \<open>ctrl_l\<close> and \<open>alt_l\<close> are aliases of \<open>shift\<close>, \<open>ctrl\<close>
  and \<open>alt\<close>, and they are aliases here (other backends alias other identifiers, such as
  \<open>alt_gr\<close>); \<open>esc\<close> is a member of its own on every backend.
\<close>

datatype Key =
    Key_space | Key_enter | Key_tab | Key_backspace | Key_delete | Key_esc | Key_shift |
    Key_shift_r | Key_ctrl | Key_ctrl_r | Key_alt | Key_alt_r | Key_alt_gr | Key_caps_lock |
    Key_up | Key_down | Key_left | Key_right |
    Key_home | Key_end | Key_page_up | Key_page_down | Key_insert | Key_f1 | Key_f2 |
    Key_f3 | Key_f4 | Key_f5 | Key_f6 | Key_f7 | Key_f8 | Key_f9 | Key_f10 | Key_f11 |
    Key_f12

definition Key_shift_l :: Key where
  "Key_shift_l = Key_shift"

definition Key_ctrl_l :: Key where
  "Key_ctrl_l = Key_ctrl"

definition Key_alt_l :: Key where
  "Key_alt_l = Key_alt"

fun Key_name :: "Key \<Rightarrow> string" where
  "Key_name Key_space = ''space''"
| "Key_name Key_enter = ''enter''"
| "Key_name Key_tab = ''tab''"
| "Key_name Key_backspace = ''backspace''"
| "Key_name Key_delete = ''delete''"
| "Key_name Key_esc = ''esc''"
| "Key_name Key_shift = ''shift''"
| "Key_name Key_shift_r = ''shift_r''"
| "Key_name Key_ctrl = ''ctrl''"
| "Key_name Key_ctrl_r = ''ctrl_r''"
| "Key_name Key_alt = ''alt''"
| "Key_name Key_alt_r = ''alt_r''"
| "Key_name Key_alt_gr = ''alt_gr''"
| "Key_name Key_caps_lock = ''caps_lock''"
| "Key_name Key_up = ''up''"
| "Key_name Key_down = ''down''"
| "Key_name Key_left = ''left''"
| "Key_name Key_right = ''right''"
| "Key_name Key_home = ''home''"
| "Key_name Key_end = ''end''"
| "Key_name Key_page_up = ''page_up''"
| "Key_name Key_page_down = ''page_down''"
| "Key_name Key_insert = ''insert''"
| "Key_name Key_f1 = ''f1''"
| "Key_name Key_f2 = ''f2''"
| "Key_name Key_f3 = ''f3''"
| "Key_name Key_f4 = ''f4''"
| "Key_name Key_f5 = ''f5''"
| "Key_name Key_f6 = ''f6''"
| "Key_name Key_f7 = ''f7''"
| "Key_name Key_f8 = ''f8''"
| "Key_name Key_f9 = ''f9''"
| "Key_name Key_f10 = ''f10''"
| "Key_name Key_f11 = ''f11''"
| "Key_name Key_f12 = ''f12''"

text \<open>
  What the keyboard listener hands to \<open>_on_press\<close> and \<open>_on_release\<close>: a \<open>KeyCode\<close>, which has
  the attribute \<open>char\<close> (possibly \<open>None\<close>) and no \<open>name\<close>; a member of \<open>Key\<close>, which has \<open>name\<close>
  and no \<open>char\<close>; or \<open>None\<close> for a key the library cannot classify.
\<close>

datatype native_key = KeyCode "string option" | KeyMember Key | NoKey

text \<open>What \<open>_to_key\<close> returns for the keyboard controller: a member of \<open>Key\<close> or a character.\<close>

datatype injected_key = InjKey Key | InjChar string

text \<open>
  Strings are sequences of ASCII characters here: \<open>str.lower\<close> and \<open>str.isalnum\<close> are modelled
  on the letters and digits of ASCII.
\<close>

definition lower_char :: "char \<Rightarrow> char" where
  "lower_char c =
     (if (65::nat) \<le> of_char c \<and> of_char c \<le> (90::nat)
      then char_of (of_char c + (32::nat)) else c)"

definition lower :: "string \<Rightarrow> string" where
  "lower s = map lower_char s"

definition isalnum_char :: "char \<Rightarrow> bool" where
  "isalnum_char c =
     (let n = (of_char c :: nat)
      in (48 \<le> n \<and> n \<le> 57) \<or> (65 \<le> n \<and> n \<le> 90) \<or> (97 \<le> n \<and> n \<le> 122))"

definition isalnum :: "string \<Rightarrow> bool" where
  "isalnum s = (s \<noteq> [] \<and> list_all isalnum_char s)"

section \<open>Recorder\<close>

text \<open>
  The fields of \<open>Recorder\<close> that the handlers read and write, with the prefix \<open>r_\<close>. The two
  listeners and the lock are not part of the state: every handler below is one atomic step.
  \<open>time.perf_counter()\<close> is an input of each handler (\<open>now\<close>). The optional observer
  \<open>on_event\<close> receives each appended event and does not change the state.
\<close>

record Recorder =
  r_events :: "Event list"
  r_start_time :: real
  r_recording :: bool
  r_last_move :: real

text \<open>
  The recorder computes with Python floats (IEEE doubles): a float is the real it denotes,
  and an operation rounds its exact result to the nearest double, ties to the even
  significand. \<open>binary_exponent n y\<close> is the exponent \<open>e\<close> with \<open>2^e \<le> y < 2^(e+1)\<close>, found
  in at most \<open>n\<close> halvings or doublings of \<open>y\<close>. A double has 53 significant bits down to
  the exponent \<open>-1022\<close> and the fixed spacing \<open>2^(-1074)\<close> below. Results beyond the largest
  double (\<open>inf\<close> in Python) do not arise from clock readings and are not represented:
  \<open>to_double\<close> gives the rounded real there.
\<close>

definition round_half_even :: "real \<Rightarrow> int" where
  "round_half_even y =
     (let f = \<lfloor>y\<rfloor>; d = y - of_int f
      in if d < 1 / 2 then f else if 1 / 2 < d then f + 1 else if even f then f else f + 1)"

fun binary_exponent :: "nat \<Rightarrow> real \<Rightarrow> int" where
  "binary_exponent 0 y = 0"
| "binary_exponent (Suc n) y =
     (if 2 \<le> y then binary_exponent n (y / 2) + 1
      else if y < 1 then binary_exponent n (y * 2) - 1
      else 0)"

definition to_double :: "real \<Rightarrow> real" where
  "to_double x =
     (if x = 0 then 0
      else let e = max (binary_exponent 1100 \<bar>x\<bar>) (- 1022);
               q = 2 powi (e - 52)
           in sgn x * of_int (round_half_even (\<bar>x\<bar> / q)) * q)"

text \<open>\<open>a - b\<close> on floats.\<close>

definition float_sub :: "real \<Rightarrow> real \<Rightarrow> real" where
  "float_sub a b = to_double (a - b)"

text \<open>The literal \<open>0.02\<close>: the double nearest to \<open>2/100\<close>.\<close>

definition INTERVAL :: real where
  "INTERVAL = to_double (2 / 100)"

definition EXCLUDED_HOTKEYS :: "string list" where
  "EXCLUDED_HOTKEYS = [''f9'', ''f10'', ''escape'']"

definition Recorder_init :: Recorder where
  "Recorder_init = \<lparr>r_events = [], r_start_time = 0, r_recording = False, r_last_move = 0\<rparr>"

definition Recorder_start :: "Recorder \<Rightarrow> real \<Rightarrow> Recorder" where
  "Recorder_start r now =
     (if r_recording r then r
      else r\<lparr>r_events := [], r_start_time := now, r_last_move := 0, r_recording := True\<rparr>)"

text \<open>\<open>stop\<close> returns the new state and the copy of the buffer.\<close>

definition Recorder_stop :: "Recorder \<Rightarrow> Recorder \<times> Event list" where
  "Recorder_stop r =
     (if \<not> r_recording r then (r, r_events r)
      else (r\<lparr>r_recording := False\<rparr>, r_events r))"

definition is_recording :: "Recorder \<Rightarrow> bool" where
  "is_recording r = r_recording r"

definition event_count :: "Recorder \<Rightarrow> nat" where
  "event_count r = length (r_events r)"

definition Recorder_ts :: "Recorder \<Rightarrow> real \<Rightarrow> real" where
  "Recorder_ts r now = float_sub now (r_start_time r)"

definition Recorder_add :: "Recorder \<Rightarrow> Event \<Rightarrow> Recorder" where
  "Recorder_add r event = r\<lparr>r_events := r_events r @ [event]\<rparr>"

text \<open>\<open>Event(type, timestamp)\<close> with every optional field at its default \<open>None\<close>.\<close>

definition mk_event :: "EventType \<Rightarrow> real \<Rightarrow> Event" where
  "mk_event ty t =
     \<lparr>e_type = ty, e_timestamp = t, e_x = JNone, e_y = JNone, e_button = JNone, e_key = JNone,
      e_pressed = JNone, e_scroll_dx = JNone, e_scroll_dy = JNone\<rparr>"

text \<open>\<open>int(x)\<close> on a float truncates towards zero.\<close>

definition py_int :: "real \<Rightarrow> int" where
  "py_int x = (if 0 \<le> x then \<lfloor>x\<rfloor> else \<lceil>x\<rceil>)"

definition Recorder_on_move :: "Recorder \<Rightarrow> real \<Rightarrow> real \<Rightarrow> real \<Rightarrow> Recorder" where
  "Recorder_on_move r now x y =
     (if \<not> r_recording r then r
      else let t = Recorder_ts r now
           in if float_sub t (r_last_move r) < INTERVAL then r
              else Recorder_add (r\<lparr>r_last_move := t\<rparr>)
                     ((mk_event MOUSE_MOVE t)\<lparr>e_x := JInt (py_int x), e_y := JInt (py_int y)\<rparr>))"

text \<open>The enum of mouse buttons; \<open>Button_other\<close> stands for every member besides the three.\<close>

datatype MouseButton = Button_left | Button_right | Button_middle | Button_other

definition Recorder_on_click ::
  "Recorder \<Rightarrow> real \<Rightarrow> real \<Rightarrow> real \<Rightarrow> MouseButton \<Rightarrow> bool \<Rightarrow> Recorder" where
  "Recorder_on_click r now x y button pressed =
     (if \<not> r_recording r then r
      else let btn = (if button = Button_left then ''left''
                      else if button = Button_right then ''right'' else ''middle'')
           in Recorder_add r
                ((mk_event MOUSE_CLICK (Recorder_ts r now))
                   \<lparr>e_x := JInt (py_int x), e_y := JInt (py_int y),
                    e_button := JStr btn, e_pressed := JBool pressed\<rparr>))"

definition Recorder_on_scroll ::
  "Recorder \<Rightarrow> real \<Rightarrow> real \<Rightarrow> real \<Rightarrow> int \<Rightarrow> int \<Rightarrow> Recorder" where
  "Recorder_on_scroll r now x y dx dy =
     (if \<not> r_recording r then r
      else Recorder_add r
             ((mk_event MOUSE_SCROLL (Recorder_ts r now))
                \<lparr>e_x := JInt (py_int x), e_y := JInt (py_int y),
                 e_scroll_dx := JInt dx, e_scroll_dy := JInt dy\<rparr>))"

text \<open>
  \<open>_key_name\<close>: \<open>key.char\<close> when the attribute exists and is not \<open>None\<close>, else \<open>key.name\<close> when
  that attribute exists, else \<open>None\<close>.
\<close>

fun Recorder_key_name :: "native_key \<Rightarrow> string option" where
  "Recorder_key_name (KeyCode (Some c)) = Some c"
| "Recorder_key_name (KeyCode None) = None"
| "Recorder_key_name (KeyMember k) = Some (Key_name k)"
| "Recorder_key_name NoKey = None"

text \<open>\<open>name and name not in self.EXCLUDED_HOTKEYS\<close>: a non-empty name outside the tuple.\<close>

definition recordable :: "string option \<Rightarrow> bool" where
  "recordable name =
     (case name of None \<Rightarrow> False | Some n \<Rightarrow> n \<noteq> [] \<and> n \<notin> set EXCLUDED_HOTKEYS)"

definition Recorder_on_press :: "Recorder \<Rightarrow> real \<Rightarrow> native_key \<Rightarrow> Recorder" where
  "Recorder_on_press r now key =
     (if \<not> r_recording r then r
      else let name = Recorder_key_name key
           in if recordable name
              then Recorder_add r
                     ((mk_event KEY_PRESS (Recorder_ts r now))
                        \<lparr>e_key := JStr (the name), e_pressed := JBool True\<rparr>)
              else r)"

definition Recorder_on_release :: "Recorder \<Rightarrow> real \<Rightarrow> native_key \<Rightarrow> Recorder" where
  "Recorder_on_release r now key =
     (if \<not> r_recording r then r
      else let name = Recorder_key_name key
           in if recordable name
              then Recorder_add r
                     ((mk_event KEY_RELEASE (Recorder_ts r now))
                        \<lparr>e_key := JStr (the name), e_pressed := JBool False\<rparr>)
              else r)"

text \<open>A stream of mouse-move notifications \<open>(now, x, y)\<close>, delivered in order.\<close>

fun feed_moves :: "Recorder \<Rightarrow> (real \<times> real \<times> real) list \<Rightarrow> Recorder" where
  "feed_moves r [] = r"
| "feed_moves r ((now, x, y) # ms) = feed_moves (Recorder_on_move r now x y) ms"

section \<open>Player\<close>

text \<open>
  The fields of \<open>Player\<close>, with the prefix \<open>p_\<close>; \<open>p_on_complete\<close> says whether a completion
  callback is registered. The thread object, the lock and the two controllers are not part
  of the state.
\<close>

record Player =
  p_events :: "Event list"
  p_playing :: bool
  p_stop_flag :: bool
  p_loop_count :: int
  p_on_complete :: bool

definition VALID_SPECIAL_CHARS :: string where
  \<open>VALID_SPECIAL_CHARS =
     ''!@#$%^&*()_+-=[]{}|;:'' @ [CHR 0x27, CHR 0x22] @ '',.<>?/~`''\<close>

definition Player_init :: Player where
  "Player_init =
     \<lparr>p_events = [], p_playing = False, p_stop_flag = False, p_loop_count = 1,
      p_on_complete = False\<rparr>"

definition set_events :: "Player \<Rightarrow> Event list \<Rightarrow> Player" where
  "set_events p evs = p\<lparr>p_events := evs\<rparr>"

definition set_loop :: "Player \<Rightarrow> int \<Rightarrow> Player" where
  "set_loop p count = p\<lparr>p_loop_count := max 0 count\<rparr>"

text \<open>
  \<open>start\<close> returns the new state and whether the replay thread (running \<open>_run\<close>) was launched.
\<close>

definition Player_start :: "Player \<Rightarrow> Player \<times> bool" where
  "Player_start p =
     (if p_playing p \<or> p_events p = [] then (p, False)
      else (p\<lparr>p_playing := True, p_stop_flag := False\<rparr>, True))"

text \<open>
  \<open>stop\<close> as seen by the controller: the flag is set, the join waits at most one second, and
  the state is marked not playing whether or not the replay thread has returned.
\<close>

definition Player_stop :: "Player \<Rightarrow> Player" where
  "Player_stop p =
     (if \<not> p_playing p then p
      else p\<lparr>p_stop_flag := True, p_playing := False\<rparr>)"

definition is_playing :: "Player \<Rightarrow> bool" where
  "is_playing p = p_playing p"

subsection \<open>Injection\<close>

text \<open>Truth value of a Python object, as \<open>if v:\<close> tests it.\<close>

fun py_truthy :: "jval \<Rightarrow> bool" where
  "py_truthy JNone = False"
| "py_truthy (JBool b) = b"
| "py_truthy (JInt i) = (i \<noteq> 0)"
| "py_truthy (JFloat r) = (r \<noteq> 0)"
| "py_truthy (JStr s) = (s \<noteq> [])"
| "py_truthy (JList xs) = (xs \<noteq> [])"
| "py_truthy (JDict d) = (d \<noteq> [])"

text \<open>The dictionary \<open>special\<close> of \<open>_to_key\<close>, in the order the source writes it.\<close>

definition special :: "(string \<times> Key) list" where
  "special =
     [(''space'', Key_space), (''enter'', Key_enter), (''tab'', Key_tab),
      (''backspace'', Key_backspace), (''delete'', Key_delete), (''escape'', Key_esc),
      (''shift'', Key_shift), (''shift_l'', Key_shift_l), (''shift_r'', Key_shift_r),
      (''ctrl'', Key_ctrl), (''ctrl_l'', Key_ctrl_l), (''ctrl_r'', Key_ctrl_r),
      (''alt'', Key_alt), (''alt_l'', Key_alt_l), (''alt_r'', Key_alt_r),
      (''alt_gr'', Key_alt_gr), (''caps_lock'', Key_caps_lock), (''up'', Key_up),
      (''down'', Key_down), (''left'', Key_left), (''right'', Key_right),
      (''home'', Key_home), (''end'', Key_end), (''page_up'', Key_page_up),
      (''page_down'', Key_page_down), (''insert'', Key_insert), (''f1'', Key_f1),
      (''f2'', Key_f2), (''f3'', Key_f3), (''f4'', Key_f4), (''f5'', Key_f5),
      (''f6'', Key_f6), (''f7'', Key_f7), (''f8'', Key_f8), (''f9'', Key_f9),
      (''f10'', Key_f10), (''f11'', Key_f11), (''f12'', Key_f12)]"

text \<open>
  \<open>_to_key\<close>. The argument is the event's \<open>key\<close> field; \<open>name.lower()\<close> raises
  \<open>AttributeError\<close> on a value that is not a string (\<open>Inl ()\<close>). The result \<open>None\<close> is the
  ignored key, for which the source logs a warning.
\<close>

definition to_key :: "jval \<Rightarrow> unit + injected_key option" where
  "to_key name =
     (case name of
        JNone \<Rightarrow> Inr None
      | JStr s \<Rightarrow>
          (let name_lower = lower s
           in case map_of special name_lower of
                Some k \<Rightarrow> Inr (Some (InjKey k))
              | None \<Rightarrow>
                  if length name_lower = 1
                     \<and> (isalnum name_lower \<or> str_contains VALID_SPECIAL_CHARS name_lower)
                  then Inr (Some (InjChar name_lower))
                  else Inr None)
      | _ \<Rightarrow> Inl ())"

text \<open>
  The calls the player makes on the mouse and keyboard controllers. The arguments are the
  event's fields as stored; the literal \<open>0\<close> of the two scroll calls is \<open>JInt 0\<close>.
\<close>

datatype os_call =
    SetPosition jval jval
  | MousePress MouseButton
  | MouseRelease MouseButton
  | MouseScroll jval jval
  | KbPress injected_key
  | KbRelease injected_key

text \<open>
  Each handler yields the controller calls it makes, in order, or \<open>Inl ()\<close> when it raises
  before making one.
\<close>

definition play_mouse_move :: "Event \<Rightarrow> unit + os_call list" where
  "play_mouse_move e =
     (if e_x e \<noteq> JNone \<and> e_y e \<noteq> JNone then Inr [SetPosition (e_x e) (e_y e)] else Inr [])"

definition play_mouse_click :: "Event \<Rightarrow> unit + os_call list" where
  "play_mouse_click e =
     (if py_truthy (e_button e) \<and> e_pressed e \<noteq> JNone \<and> e_x e \<noteq> JNone \<and> e_y e \<noteq> JNone
      then let btn = (if e_button e = JStr ''left'' then Button_left
                      else if e_button e = JStr ''right'' then Button_right
                      else Button_middle)
           in if py_truthy (e_pressed e) then Inr [MousePress btn] else Inr [MouseRelease btn]
      else Inr [])"

definition play_mouse_scroll :: "Event \<Rightarrow> unit + os_call list" where
  "play_mouse_scroll e =
     (if e_x e \<noteq> JNone \<and> e_y e \<noteq> JNone
      then Inr ((if py_truthy (e_scroll_dy e) then [MouseScroll (JInt 0) (e_scroll_dy e)] else [])
                @ (if py_truthy (e_scroll_dx e) then [MouseScroll (e_scroll_dx e) (JInt 0)] else []))
      else Inr [])"

definition play_key_press :: "Event \<Rightarrow> unit + os_call list" where
  "play_key_press e =
     (if e_key e \<noteq> JNone
      then (case to_key (e_key e) of
              Inl u \<Rightarrow> Inl u
            | Inr None \<Rightarrow> Inr []
            | Inr (Some k) \<Rightarrow> Inr [KbPress k])
      else Inr [])"

definition play_key_release :: "Event \<Rightarrow> unit + os_call list" where
  "play_key_release e =
     (if e_key e \<noteq> JNone
      then (case to_key (e_key e) of
              Inl u \<Rightarrow> Inl u
            | Inr None \<Rightarrow> Inr []
            | Inr (Some k) \<Rightarrow> Inr [KbRelease k])
      else Inr [])"

text \<open>
  What \<open>_play_event\<close> does to the outside: a controller call that went through, or the
  \<open>except\<close> branch (the error is logged and passed to \<open>on_error\<close> when one is registered).
\<close>

datatype effect = OsAction os_call | PlaybackError

text \<open>
  The controllers belong to the input library; \<open>raises c\<close> says whether the call \<open>c\<close> raises.
  A call that raises ends the handler.
\<close>

fun perform :: "(os_call \<Rightarrow> bool) \<Rightarrow> os_call list \<Rightarrow> effect list" where
  "perform raises [] = []"
| "perform raises (c # cs) =
     (if raises c then [PlaybackError] else OsAction c # perform raises cs)"

definition play_event :: "(os_call \<Rightarrow> bool) \<Rightarrow> Event \<Rightarrow> effect list" where
  "play_event raises e =
     (case (case e_type e of
              MOUSE_MOVE \<Rightarrow> play_mouse_move e
            | MOUSE_CLICK \<Rightarrow> play_mouse_click e
            | MOUSE_SCROLL \<Rightarrow> play_mouse_scroll e
            | KEY_PRESS \<Rightarrow> play_key_press e
            | KEY_RELEASE \<Rightarrow> play_key_release e) of
        Inl u \<Rightarrow> [PlaybackError]
      | Inr calls \<Rightarrow> perform raises calls)"

subsection \<open>The replay thread\<close>

text \<open>
  \<open>_run\<close> executes on its own thread while the controller may call \<open>stop\<close>. What the thread
  sees of the world is given by two functions: \<open>stop_flag_at k\<close> is the value of
  \<open>self._stop_flag\<close> at the thread's \<open>k\<close>-th read of it, and \<open>perf_counter_at k\<close> is the value
  of its \<open>k\<close>-th call of \<open>time.perf_counter()\<close>. Every interleaving of \<open>stop\<close> with the thread
  is one such pair.
\<close>

record world =
  stop_flag_at :: "nat \<Rightarrow> bool"
  perf_counter_at :: "nat \<Rightarrow> real"

text \<open>
  What the thread does, in order: a read of the flag with the value read, a call of
  \<open>time.sleep\<close>, a call of \<open>_play_event\<close>, the call of \<open>on_complete\<close>.
\<close>

datatype step = FlagRead bool | Sleep real | Play Event | OnComplete

record thread =
  n_flag :: nat
  n_clock :: nat
  trace :: "step list"

definition thread_init :: thread where
  "thread_init = \<lparr>n_flag = 0, n_clock = 0, trace = []\<rparr>"

definition read_flag :: "world \<Rightarrow> thread \<Rightarrow> bool \<times> thread" where
  "read_flag w t =
     (let b = stop_flag_at w (n_flag t)
      in (b, t\<lparr>n_flag := Suc (n_flag t), trace := trace t @ [FlagRead b]\<rparr>))"

definition read_clock :: "world \<Rightarrow> thread \<Rightarrow> real \<times> thread" where
  "read_clock w t = (perf_counter_at w (n_clock t), t\<lparr>n_clock := Suc (n_clock t)\<rparr>)"

definition emit :: "step \<Rightarrow> thread \<Rightarrow> thread" where
  "emit s t = t\<lparr>trace := trace t @ [s]\<rparr>"

text \<open>The \<open>for\<close> loop of \<open>_play_once\<close>; \<open>start\<close> is the reference instant of the pass.\<close>

fun play_events :: "world \<Rightarrow> real \<Rightarrow> Event list \<Rightarrow> thread \<Rightarrow> thread" where
  "play_events w start [] t = t"
| "play_events w start (event # rest) t =
     (case read_flag w t of
        (True, t1) \<Rightarrow> t1
      | (False, t1) \<Rightarrow>
          (case read_clock w t1 of
             (now, t2) \<Rightarrow>
               (let wait = start + e_timestamp event - now;
                    t3 = (if 0 < wait then emit (Sleep wait) t2 else t2)
                in play_events w start rest (emit (Play event) t3))))"

definition play_once :: "world \<Rightarrow> Event list \<Rightarrow> thread \<Rightarrow> thread" where
  "play_once w evs t =
     (if evs = [] then t
      else case read_clock w t of (start, t1) \<Rightarrow> play_events w start evs t1)"

text \<open>
  The \<open>while\<close> loop of \<open>_run\<close>. The first argument bounds the number of iterations: \<open>None\<close>
  means the loop has not left within that many. The result is the final value of \<open>loop\<close>
  and the thread's state.
\<close>

fun run_loop :: "nat \<Rightarrow> world \<Rightarrow> Player \<Rightarrow> nat \<Rightarrow> thread \<Rightarrow> (nat \<times> thread) option" where
  "run_loop 0 w p loop t = None"
| "run_loop (Suc fuel) w p loop t =
     (case read_flag w t of
        (True, t1) \<Rightarrow> Some (loop, t1)
      | (False, t1) \<Rightarrow>
          (let loop' = Suc loop;
               t2 = play_once w (p_events p) t1
           in if 0 < p_loop_count p \<and> p_loop_count p \<le> int loop' then Some (loop', t2)
              else run_loop fuel w p loop' t2))"

record run_result =
  player :: Player
  passes :: nat
  final :: thread

text \<open>
  \<open>_run\<close>: the loop, then \<open>_playing = False\<close>, then \<open>on_complete\<close> when one is registered and
  the flag, read once more, is clear.
\<close>

definition Player_run :: "nat \<Rightarrow> world \<Rightarrow> Player \<Rightarrow> run_result option" where
  "Player_run fuel w p =
     (case run_loop fuel w p 0 thread_init of
        None \<Rightarrow> None
      | Some (loop, t) \<Rightarrow>
          (let p' = p\<lparr>p_playing := False\<rparr>
           in if p_on_complete p
              then (case read_flag w t of
                      (True, t1) \<Rightarrow> Some \<lparr>player = p', passes = loop, final = t1\<rparr>
                    | (False, t1) \<Rightarrow>
                        Some \<lparr>player = p', passes = loop, final = emit OnComplete t1\<rparr>)
              else Some \<lparr>player = p', passes = loop, final = t\<rparr>))"

text \<open>The events handed to \<open>_play_event\<close>, and the effects of a trace on the outside.\<close>

fun played :: "step list \<Rightarrow> Event list" where
  "played [] = []"
| "played (Play e # ss) = e # played ss"
| "played (_ # ss) = played ss"

fun effects :: "(os_call \<Rightarrow> bool) \<Rightarrow> step list \<Rightarrow> effect list" where
  "effects raises [] = []"
| "effects raises (Play e # ss) = play_event raises e @ effects raises ss"
| "effects raises (_ # ss) = effects raises ss"

section \<open>The codec round trip\<close>

lemma EventType_of_value: "EventType_of (JStr (EventType_value t)) = Some t"
  by (cases t) (simp_all add: EventType_of_def)

lemma map_of_filter_present:
  "distinct (map fst kvs) \<Longrightarrow>
   map_of (filter (\<lambda>(k, v). v \<noteq> JNone) kvs) k =
     (case map_of kvs k of Some JNone \<Rightarrow> None | r \<Rightarrow> r)"
proof (induction kvs)
  case Nil
  then show ?case by simp
next
  case (Cons kv kvs)
  obtain k' v' where kv: "kv = (k', v')" by (cases kv)
  from Cons.prems have nin: "k' \<notin> fst ` set kvs" and d: "distinct (map fst kvs)"
    by (simp_all add: kv)
  from nin have none: "map_of kvs k' = None"
    by (simp add: map_of_eq_None_iff)
  show ?case
    using Cons.IH [OF d] none
    by (auto simp: kv split: option.splits jval.splits)
qed

lemma map_of_pre_filter:
  "distinct (map fst kvs) \<Longrightarrow>
   map_of (pre @ filter (\<lambda>(k, v). v \<noteq> JNone) kvs) k =
     (case map_of pre k of
        Some v \<Rightarrow> Some v
      | None \<Rightarrow> (case map_of kvs k of Some JNone \<Rightarrow> None | r \<Rightarrow> r))"
  by (simp add: map_of_filter_present map_add_def split: option.splits)

lemma Event_from_dict_to_dict: "Event_from_dict (Event_to_dict e) = Inr e"
proof -
  define pre where
    "pre = [(''type'', JStr (EventType_value (e_type e))), (''timestamp'', JFloat (e_timestamp e))]"
  define fields where
    "fields = [(''x'', e_x e), (''y'', e_y e), (''button'', e_button e), (''key'', e_key e),
               (''pressed'', e_pressed e), (''scroll_dx'', e_scroll_dx e),
               (''scroll_dy'', e_scroll_dy e)]"
  define L where "L = pre @ filter (\<lambda>(k, v). v \<noteq> JNone) fields"
  have d: "distinct (map fst fields)"
    by (simp add: fields_def)
  have m: "map_of L k =
      (case map_of pre k of
         Some v \<Rightarrow> Some v
       | None \<Rightarrow> (case map_of fields k of Some JNone \<Rightarrow> None | r \<Rightarrow> r))" for k
    unfolding L_def by (rule map_of_pre_filter [OF d])
  have ty: "map_of L ''type'' = Some (JStr (EventType_value (e_type e)))"
    by (simp add: m pre_def)
  have ts: "map_of L ''timestamp'' = Some (JFloat (e_timestamp e))"
    by (simp add: m pre_def)
  have g: "dict_get L ''x'' = e_x e" "dict_get L ''y'' = e_y e"
    "dict_get L ''button'' = e_button e" "dict_get L ''key'' = e_key e"
    "dict_get L ''pressed'' = e_pressed e" "dict_get L ''scroll_dx'' = e_scroll_dx e"
    "dict_get L ''scroll_dy'' = e_scroll_dy e"
    by (simp_all add: dict_get_def m pre_def fields_def split: jval.splits)
  have td: "Event_to_dict e = JDict L"
    unfolding Event_to_dict_def L_def pre_def fields_def by (rule refl)
  show ?thesis
    unfolding td by (simp add: Event_from_dict_def ty ts g EventType_of_value)
qed

lemma load_events_to_dict: "load_events i (map Event_to_dict es) acc = Inr (acc @ es)"
  by (induction es arbitrary: i acc) (simp_all add: Event_from_dict_to_dict)

text \<open>
  Claim C1. Serialising a timeline and deserialising the result gives back the timeline:
  the same name and creation stamp, and the same events in the same order, each with its
  kind, its timestamp and every payload field it had; a field that was \<open>None\<close> is not
  written and is read back as \<open>None\<close>.
\<close>

theorem C1_roundtrip: "Macro_from_dict (Macro_to_dict m) = Inr m"
  by (simp add: Macro_from_dict_def Macro_to_dict_def load_events_to_dict
      dict_get_default_def)

section \<open>Deserialisation of an event\<close>

lemma bit_length_le: "a < 2 ^ n \<Longrightarrow> bit_length a \<le> n"
proof (induction n arbitrary: a)
  case 0
  then show ?case by (simp add: bit_length.simps)
next
  case (Suc n)
  show ?case
  proof (cases "a \<le> 0")
    case True
    then show ?thesis by (simp add: bit_length.simps)
  next
    case False
    from Suc.prems have "a div 2 < 2 ^ n" by simp
    then have "bit_length (a div 2) \<le> n" by (rule Suc.IH)
    with False show ?thesis by (subst bit_length.simps) simp
  qed
qed

lemma float_of_int_small:
  assumes "\<bar>i\<bar> < 2 ^ 53"
  shows "float_of_int i = Inr (real_of_int i)"
proof -
  define a where "a = \<bar>i\<bar>"
  from assms have sh: "bit_length a - 53 = 0"
    using bit_length_le [of a 53] by (simp add: a_def)
  have "a < (2::int) ^ 53" using assms by (simp add: a_def)
  also have "(2::int) ^ 53 < 2 ^ 1024" by simp
  finally have small: "\<not> (2::int) ^ 1024 \<le> a" by simp
  have "float_of_int i = Inr (real_of_int (if i < 0 then - a else a))"
    unfolding float_of_int_def a_def [symmetric] Let_def sh using small by simp
  also have "(if i < 0 then - a else a) = i" by (simp add: a_def)
  finally show ?thesis .
qed

lemma Event_from_dict_JDict:
  "Event_from_dict (JDict d) =
     (case map_of d ''type'' of
        None \<Rightarrow> Inl MissingRequiredFields
      | Some tv \<Rightarrow>
     (case map_of d ''timestamp'' of
        None \<Rightarrow> Inl MissingRequiredFields
      | Some ts \<Rightarrow>
     (case EventType_of tv of
        None \<Rightarrow> Inl (InvalidEventType tv)
      | Some ty \<Rightarrow>
          if \<not> is_int_or_float ts then Inl (TimestampNotNumber ts)
          else (case py_float ts of
                  Inl ex \<Rightarrow> Inl ex
                | Inr f \<Rightarrow>
                    Inr \<lparr>e_type = ty, e_timestamp = f,
                         e_x = dict_get d ''x'', e_y = dict_get d ''y'',
                         e_button = dict_get d ''button'', e_key = dict_get d ''key'',
                         e_pressed = dict_get d ''pressed'',
                         e_scroll_dx = dict_get d ''scroll_dx'',
                         e_scroll_dy = dict_get d ''scroll_dy''\<rparr>))))"
  by (simp add: Event_from_dict_def split: option.splits sum.splits)

lemma py_float_error: "py_float v = Inl ex \<Longrightarrow> \<not> is_ValueError ex"
  by (cases v) (auto simp: float_of_int_def Let_def split: if_splits)

lemma Event_from_dict_ValueError_iff:
  "(\<exists>ex. Event_from_dict (JDict d) = Inl ex \<and> is_ValueError ex) \<longleftrightarrow>
     map_of d ''type'' = None \<or> map_of d ''timestamp'' = None
     \<or> (\<exists>tv. map_of d ''type'' = Some tv \<and> EventType_of tv = None)
     \<or> (\<exists>ts. map_of d ''timestamp'' = Some ts \<and> \<not> is_int_or_float ts)"
  by (auto simp: Event_from_dict_JDict dest: py_float_error split: option.splits sum.splits)

lemma Event_from_dict_cites_field:
  "Event_from_dict (JDict d) = Inl ex \<Longrightarrow> is_ValueError ex \<Longrightarrow>
     (map_of d ''type'' = None \<or> (\<exists>tv. map_of d ''type'' = Some tv \<and> EventType_of tv = None)
        \<longrightarrow> ''type'' \<in> set (cited_fields ex))
     \<and> (map_of d ''type'' \<noteq> None \<and> (\<forall>tv. map_of d ''type'' = Some tv \<longrightarrow> EventType_of tv \<noteq> None)
        \<longrightarrow> ''timestamp'' \<in> set (cited_fields ex))"
  by (auto simp: Event_from_dict_JDict dest: py_float_error
      split: option.splits sum.splits if_splits)

lemma Event_from_dict_extra_field:
  assumes "k \<notin> {''type'', ''timestamp'', ''x'', ''y'', ''button'', ''key'', ''pressed'',
                 ''scroll_dx'', ''scroll_dy''}"
  shows "Event_from_dict (JDict ((k, v) # d)) = Event_from_dict (JDict d)"
proof -
  have m: "map_of ((k, v) # d) k' = map_of d k'"
    if "k' \<in> {''type'', ''timestamp'', ''x'', ''y'', ''button'', ''key'', ''pressed'',
               ''scroll_dx'', ''scroll_dy''}" for k'
    using that assms by auto
  show ?thesis
    unfolding Event_from_dict_JDict dict_get_def by (simp only: m insertI1 insertI2)
qed

text \<open>
  Claim C7. \<open>Event.from_dict\<close> is to fail when \<open>timestamp\<close> is not numeric. The test
  \<open>isinstance(d["timestamp"], (int, float))\<close> lets a boolean through, since \<open>bool\<close> is a
  subclass of \<open>int\<close>: the record \<open>{"type": "mouse_move", "timestamp": true}\<close> is accepted and
  yields an event with timestamp \<open>1.0\<close>. The rest of the claim is
  \<open>Event_from_dict_ValueError_iff\<close>, \<open>Event_from_dict_cites_field\<close>,
  \<open>Event_from_dict_JDict\<close> and \<open>Event_from_dict_extra_field\<close> above.
\<close>

theorem C7_boolean_timestamp:
  "Event_from_dict (JDict [(''type'', JStr ''mouse_move''), (''timestamp'', JBool True)])
     = Inr (mk_event MOUSE_MOVE 1)"
  by (simp add: Event_from_dict_def EventType_of_def dict_get_def mk_event_def)

section \<open>Deserialisation of a timeline\<close>

lemma load_events_first_failure:
  "load_events i es acc =
     (let n = length (takeWhile (\<lambda>e. \<not> isl (Event_from_dict e)) es)
      in if n < length es
         then Inl (FailedToLoadEvent (i + n) (projl (Event_from_dict (es ! n))))
         else Inr (acc @ map (\<lambda>e. projr (Event_from_dict e)) es))"
proof (induction es arbitrary: i acc)
  case Nil
  then show ?case by simp
next
  case (Cons e es)
  show ?case
  proof (cases "Event_from_dict e")
    case (Inl ex)
    then show ?thesis by simp
  next
    case (Inr ev)
    then show ?thesis by (simp add: Cons.IH Let_def)
  qed
qed

lemma Macro_from_dict_JDict:
  "Macro_from_dict (JDict kv) =
     (case map_of kv ''events'' of
        None \<Rightarrow> Inl MissingEvents
      | Some (JList es) \<Rightarrow>
          (let n = length (takeWhile (\<lambda>e. \<not> isl (Event_from_dict e)) es)
           in if n < length es
              then Inl (FailedToLoadEvent n (projl (Event_from_dict (es ! n))))
              else Inr \<lparr>m_name = dict_get_default kv ''name'' (JStr ''Untitled''),
                        m_events = map (\<lambda>e. projr (Event_from_dict e)) es,
                        m_created_at = dict_get_default kv ''created_at'' (JStr '''')\<rparr>)
      | Some _ \<Rightarrow> Inl EventsNotList)"
  by (simp add: Macro_from_dict_def load_events_first_failure Let_def
      split: option.splits jval.splits)

lemma Macro_from_dict_not_dict:
  "\<forall>kv. d \<noteq> JDict kv \<Longrightarrow> Macro_from_dict d = Inl NotADictionary"
  by (cases d) (simp_all add: Macro_from_dict_def)

lemma takeWhile_short_iff:
  "length (takeWhile P xs) < length xs \<longleftrightarrow> (\<exists>x\<in>set xs. \<not> P x)"
  by (induction xs) auto

lemma takeWhile_first_index:
  "i < length xs \<Longrightarrow> \<not> P (xs ! i) \<Longrightarrow> (\<forall>j<i. P (xs ! j)) \<Longrightarrow> length (takeWhile P xs) = i"
proof (induction xs arbitrary: i)
  case Nil
  then show ?case by simp
next
  case (Cons x xs)
  show ?case
  proof (cases i)
    case 0
    with Cons.prems show ?thesis by simp
  next
    case (Suc k)
    from Cons.prems Suc have px: "P x" by auto
    from Cons.prems Suc have "k < length xs" "\<not> P (xs ! k)" "\<forall>j<k. P (xs ! j)"
      by auto
    then have "length (takeWhile P xs) = k" by (rule Cons.IH)
    with px Suc show ?thesis by simp
  qed
qed

lemma map_projr_all_Inr:
  "\<forall>e\<in>set es. \<not> isl (f e) \<Longrightarrow> map f es = map Inr (map (\<lambda>e. projr (f e)) es)"
  by (induction es) (simp_all add: sum.collapse(2))


lemma Macro_from_dict_fails_iff:
  "isl (Macro_from_dict (JDict kv)) \<longleftrightarrow>
      map_of kv ''events'' = None
      \<or> (\<exists>v. map_of kv ''events'' = Some v \<and> (\<forall>es. v \<noteq> JList es))
      \<or> (\<exists>es. map_of kv ''events'' = Some (JList es)
              \<and> (\<exists>e\<in>set es. isl (Event_from_dict e)))"
proof (cases "map_of kv ''events''")
  case None
  then show ?thesis by (simp add: Macro_from_dict_JDict)
next
  case (Some v)
  show ?thesis
  proof (cases "\<exists>es. v = JList es")
    case True
    then obtain es where v: "v = JList es" by blast
    show ?thesis
      using takeWhile_short_iff [of "\<lambda>e. \<not> isl (Event_from_dict e)" es]
      by (simp add: Macro_from_dict_JDict Some v Let_def)
  next
    case False
    then show ?thesis
      by (cases v) (simp_all add: Macro_from_dict_JDict Some)
  qed
qed

lemma Macro_from_dict_error_class:
  "Macro_from_dict (JDict kv) = Inl err \<Longrightarrow> is_ValueError err"
  by (auto simp: Macro_from_dict_JDict Let_def split: option.splits jval.splits if_splits)

lemma Macro_from_dict_first_bad:
  assumes "map_of kv ''events'' = Some (JList es)" "i < length es"
    "isl (Event_from_dict (es ! i))" "\<forall>j<i. \<not> isl (Event_from_dict (es ! j))"
  shows "Macro_from_dict (JDict kv)
           = Inl (FailedToLoadEvent i (projl (Event_from_dict (es ! i))))"
proof -
  have "length (takeWhile (\<lambda>e. \<not> isl (Event_from_dict e)) es) = i"
    using assms(2-4) by (intro takeWhile_first_index) simp_all
  with assms(1,2) show ?thesis
    by (simp add: Macro_from_dict_JDict)
qed

lemma Macro_from_dict_complete:
  assumes "Macro_from_dict (JDict kv) = Inr m"
  shows "\<exists>es. map_of kv ''events'' = Some (JList es)
           \<and> map Event_from_dict es = map Inr (m_events m)"
proof -
  from assms obtain es where es: "map_of kv ''events'' = Some (JList es)"
    by (auto simp: Macro_from_dict_JDict split: option.splits jval.splits)
  let ?P = "\<lambda>e. \<not> isl (Event_from_dict e)"
  from assms es have n: "\<not> length (takeWhile ?P es) < length es"
    and ev: "m_events m = map (\<lambda>e. projr (Event_from_dict e)) es"
    by (auto simp: Macro_from_dict_JDict Let_def split: if_splits)
  from n have "\<forall>e\<in>set es. \<not> isl (Event_from_dict e)"
    by (simp add: takeWhile_short_iff)
  then have "map Event_from_dict es = map Inr (m_events m)"
    unfolding ev by (rule map_projr_all_Inr)
  with es show ?thesis by blast
qed

text \<open>
  Claim C8. For a dictionary \<open>kv\<close>, \<open>Macro.from_dict\<close> fails exactly when \<open>events\<close> is absent,
  is not a list, or holds an element on which \<open>Event.from_dict\<close> raises; every failure is a
  \<open>ValueError\<close>; when an element fails, the error names the index of the first such element
  and carries its exception; and a timeline is returned only when every element of \<open>events\<close>
  was deserialised, so a failure never leaves a partly filled timeline.
\<close>

theorem C8_timeline_errors:
  "(isl (Macro_from_dict (JDict kv)) \<longleftrightarrow>
      map_of kv ''events'' = None
      \<or> (\<exists>v. map_of kv ''events'' = Some v \<and> (\<forall>es. v \<noteq> JList es))
      \<or> (\<exists>es. map_of kv ''events'' = Some (JList es)
              \<and> (\<exists>e\<in>set es. isl (Event_from_dict e))))
   \<and> (\<forall>err. Macro_from_dict (JDict kv) = Inl err \<longrightarrow> is_ValueError err)
   \<and> (\<forall>es i. map_of kv ''events'' = Some (JList es) \<and> i < length es
          \<and> isl (Event_from_dict (es ! i)) \<and> (\<forall>j<i. \<not> isl (Event_from_dict (es ! j)))
        \<longrightarrow> Macro_from_dict (JDict kv)
              = Inl (FailedToLoadEvent i (projl (Event_from_dict (es ! i)))))
   \<and> (\<forall>m. Macro_from_dict (JDict kv) = Inr m \<longrightarrow>
          (\<exists>es. map_of kv ''events'' = Some (JList es)
             \<and> map Event_from_dict es = map Inr (m_events m)))"
  using Macro_from_dict_fails_iff [of kv] Macro_from_dict_error_class [of kv]
    Macro_from_dict_first_bad [of kv] Macro_from_dict_complete [of kv]
  by blast

theorem C8_timeline_errors_witness:
  "Macro_from_dict (JDict [(''name'', JStr ''demo''), (''events'', JList [
       JDict [(''type'', JStr ''key_press''), (''timestamp'', JInt 0), (''key'', JStr ''a'')],
       JDict [(''type'', JStr ''key_release''), (''key'', JStr ''a'')],
       JInt 3])])
     = Inl (FailedToLoadEvent 1 MissingRequiredFields)
   \<and> isl (Macro_from_dict (JDict [(''name'', JStr ''demo'')]))
   \<and> isl (Macro_from_dict (JDict [(''events'', JStr ''abc'')]))"
proof -
  let ?good = "JDict [(''type'', JStr ''key_press''), (''timestamp'', JInt 0), (''key'', JStr ''a'')]"
  let ?bad = "JDict [(''type'', JStr ''key_release''), (''key'', JStr ''a'')]"
  let ?es = "[?good, ?bad, JInt 3]"
  let ?kv = "[(''name'', JStr ''demo''), (''events'', JList ?es)]"
  have g: "\<not> isl (Event_from_dict ?good)"
    by (simp add: Event_from_dict_def EventType_of_def float_of_int_small)
  have b: "Event_from_dict ?bad = Inl MissingRequiredFields"
    by (simp add: Event_from_dict_def)
  have h: "map_of ?kv ''events'' = Some (JList ?es) \<and> 1 < length ?es
      \<and> isl (Event_from_dict (?es ! 1)) \<and> (\<forall>j<1. \<not> isl (Event_from_dict (?es ! j)))"
    using g b by simp
  have "Macro_from_dict (JDict ?kv)
      = Inl (FailedToLoadEvent 1 (projl (Event_from_dict (?es ! 1))))"
    using C8_timeline_errors [of ?kv] h by blast
  moreover have "isl (Macro_from_dict (JDict [(''name'', JStr ''demo'')]))"
    using C8_timeline_errors [of "[(''name'', JStr ''demo'')]"] by simp
  moreover have "isl (Macro_from_dict (JDict [(''events'', JStr ''abc'')]))"
    using C8_timeline_errors [of "[(''events'', JStr ''abc'')]"] by simp
  ultimately show ?thesis
    using b by simp
qed

section \<open>Rounding to a double\<close>

text \<open>
  \<open>to_double\<close> is within half a unit in the last place of its argument; \<open>0\<close> and \<open>1\<close> are
  doubles, and the literal \<open>0.02\<close> lies within one millionth of \<open>2/100\<close>.
\<close>

lemma round_half_even_error: "\<bar>real_of_int (round_half_even y) - y\<bar> \<le> 1 / 2"
proof -
  have "real_of_int \<lfloor>y\<rfloor> \<le> y" "y < real_of_int \<lfloor>y\<rfloor> + 1"
    by linarith+
  then show ?thesis
    by (auto simp: round_half_even_def Let_def)
qed

lemma binary_exponent_lower:
  "0 < y \<Longrightarrow> 2 powi binary_exponent n y \<le> y \<or> binary_exponent n y \<le> - int n"
proof (induction n arbitrary: y)
  case 0
  then show ?case by simp
next
  case (Suc n)
  show ?case
  proof (cases "2 \<le> y")
    case True
    from Suc.prems have "0 < y / 2" by simp
    from Suc.IH [OF this] show ?thesis
    proof
      assume "2 powi binary_exponent n (y / 2) \<le> y / 2"
      then have "2 powi (binary_exponent n (y / 2) + 1) \<le> y"
        by (simp add: power_int_add)
      with True show ?thesis by simp
    next
      assume a: "binary_exponent n (y / 2) \<le> - int n"
      then have "binary_exponent n (y / 2) + 1 \<le> 1" by simp
      then have "(2::real) powi (binary_exponent n (y / 2) + 1) \<le> 2 powi 1"
        by (intro power_int_increasing) simp_all
      with True have "2 powi (binary_exponent n (y / 2) + 1) \<le> y" by simp
      with True show ?thesis by simp
    qed
  next
    case False
    show ?thesis
    proof (cases "y < 1")
      case True
      from Suc.prems have "0 < y * 2" by simp
      from Suc.IH [OF this] show ?thesis
      proof
        assume "2 powi binary_exponent n (y * 2) \<le> y * 2"
        then have "2 powi (binary_exponent n (y * 2) - 1) \<le> y"
          by (simp add: power_int_diff)
        with True False show ?thesis by simp
      next
        assume "binary_exponent n (y * 2) \<le> - int n"
        with True False show ?thesis by simp
      qed
    next
      case ge: False
      with False show ?thesis by simp
    qed
  qed
qed

lemma to_double_error: "\<bar>to_double x - x\<bar> \<le> \<bar>x\<bar> / 2 ^ 53 + 1 / 2 ^ 1075"
proof (cases "x = 0")
  case True
  then show ?thesis by (simp add: to_double_def)
next
  case False
  define e0 where "e0 = binary_exponent 1100 \<bar>x\<bar>"
  define e where "e = max e0 (- 1022)"
  define q :: real where "q = 2 powi (e - 52)"
  define k where "k = round_half_even (\<bar>x\<bar> / q)"
  have q: "0 < q" by (simp add: q_def)
  have td: "to_double x = sgn x * of_int k * q"
    using False by (simp add: to_double_def Let_def e0_def e_def q_def k_def)
  have "to_double x - x = sgn x * (of_int k * q - \<bar>x\<bar>)"
    unfolding td by (simp add: algebra_simps abs_mult_sgn mult_sgn_abs)
  then have "\<bar>to_double x - x\<bar> = \<bar>of_int k * q - \<bar>x\<bar>\<bar>"
    using False by (simp add: abs_mult abs_sgn_eq)
  also have "of_int k * q - \<bar>x\<bar> = (of_int k - \<bar>x\<bar> / q) * q"
    using q by (simp add: field_simps)
  also have "\<bar>(of_int k - \<bar>x\<bar> / q) * q\<bar> = \<bar>of_int k - \<bar>x\<bar> / q\<bar> * q"
    using q by (simp add: abs_mult)
  also have "\<dots> \<le> 1 / 2 * q"
    using round_half_even_error [of "\<bar>x\<bar> / q"] q
    by (intro mult_right_mono) (simp_all add: k_def)
  finally have half: "\<bar>to_double x - x\<bar> \<le> q / 2" by simp
  have q2: "q / 2 = 2 powi (e - 53)"
    by (simp add: q_def power_int_diff)
  show ?thesis
  proof (cases "e0 < - 1022")
    case True
    then have "e = - 1022" by (simp add: e_def)
    then have "q / 2 = 1 / 2 ^ 1075"
      by (simp add: q2 power_int_minus_divide)
    with half show ?thesis
      by (smt (verit) abs_ge_zero divide_nonneg_pos zero_less_power zero_less_numeral)
  next
    case ge: False
    then have ee: "e = e0" by (simp add: e_def)
    from False have "0 < \<bar>x\<bar>" by simp
    from binary_exponent_lower [OF this, of 1100] ge have "2 powi e0 \<le> \<bar>x\<bar>"
      by (simp add: e0_def)
    then have "2 powi (e - 53) \<le> \<bar>x\<bar> / 2 ^ 53"
      by (simp add: ee power_int_diff divide_right_mono)
    with half q2 show ?thesis
      by (smt (verit) divide_nonneg_pos zero_less_power zero_less_numeral)
  qed
qed

lemma binary_exponent_unit: "1 \<le> y \<Longrightarrow> y < 2 \<Longrightarrow> binary_exponent n y = 0"
  by (cases n) simp_all

lemma to_double_0: "to_double 0 = 0"
  by (simp add: to_double_def)

lemma to_double_1: "to_double 1 = 1"
  by (simp add: to_double_def binary_exponent_unit round_half_even_def Let_def
      power_int_minus_divide)

lemma to_double_near: "\<bar>to_double x - x\<bar> \<le> \<bar>x\<bar> / 2 ^ 53 + 1 / 2 ^ 64"
proof -
  have "(2::real) ^ 64 \<le> 2 ^ 1075"
    by (rule power_increasing) simp_all
  then have "(1::real) / 2 ^ 1075 \<le> 1 / 2 ^ 64"
    by (intro divide_left_mono) simp_all
  with to_double_error [of x] show ?thesis by linarith
qed

lemma INTERVAL_bounds: "19999 / 1000000 < INTERVAL" "INTERVAL < 20001 / 1000000"
proof -
  have "\<bar>INTERVAL - 2 / 100\<bar> \<le> \<bar>2 / 100 :: real\<bar> / 2 ^ 53 + 1 / 2 ^ 64"
    unfolding INTERVAL_def by (rule to_double_near)
  also have "\<dots> < 1 / 1000000" by simp
  finally have "\<bar>INTERVAL - 2 / 100\<bar> < 1 / 1000000" .
  then show "19999 / 1000000 < INTERVAL" "INTERVAL < 20001 / 1000000"
    by linarith+
qed

section \<open>Keys that control the session\<close>

lemma excluded_f9_f10:
  "k = Key_f9 \<or> k = Key_f10 \<Longrightarrow>
   Recorder_on_press r now (KeyMember k) = r \<and> Recorder_on_release r now (KeyMember k) = r"
  by (auto simp: Recorder_on_press_def Recorder_on_release_def recordable_def
      EXCLUDED_HOTKEYS_def)

text \<open>
  Claim C2. No press or release of a session-control key (F9, F10, Escape) is to be appended
  while recording. \<open>EXCLUDED_HOTKEYS\<close> holds \<open>"escape"\<close>, but the name \<open>_key_name\<close> gives the
  Escape key is \<open>"esc"\<close>, so its press and its release are both appended. F9 and F10 are
  dropped (\<open>excluded_f9_f10\<close>).
\<close>

theorem C2_escape_recorded:
  "r_events (Recorder_on_press (Recorder_start Recorder_init 100) 101 (KeyMember Key_esc))
     = [(mk_event KEY_PRESS 1)\<lparr>e_key := JStr ''esc'', e_pressed := JBool True\<rparr>]
   \<and> r_events (Recorder_on_release (Recorder_start Recorder_init 100) 101 (KeyMember Key_esc))
     = [(mk_event KEY_RELEASE 1)\<lparr>e_key := JStr ''esc'', e_pressed := JBool False\<rparr>]"
  by (simp add: Recorder_on_press_def Recorder_on_release_def Recorder_start_def
      Recorder_init_def recordable_def EXCLUDED_HOTKEYS_def Recorder_add_def Recorder_ts_def
      float_sub_def to_double_1)

section \<open>Key names in both directions\<close>

lemma lower_escape: "lower ''escape'' = ''escape''" "lower ''esc'' = ''esc''"
  "lower ''banana_key'' = ''banana_key''"
  by (simp_all add: lower_def lower_char_def)

lemma to_key_unrecognized: "to_key (JStr ''banana_key'') = Inr None"
  by (simp add: special_def to_key_def lower_escape)

lemma special_names_except_escape_and_aliases:
  "\<forall>(n, k) \<in> set special. n \<notin> {''escape'', ''shift_l'', ''ctrl_l'', ''alt_l''} \<longrightarrow>
      Recorder_key_name (KeyMember k) = Some n \<and> to_key (JStr n) = Inr (Some (InjKey k))"
  by (simp add: special_def to_key_def lower_def lower_char_def)

lemma special_aliases:
  "Recorder_key_name (KeyMember Key_shift_l) = Some ''shift''"
  "Recorder_key_name (KeyMember Key_ctrl_l) = Some ''ctrl''"
  "Recorder_key_name (KeyMember Key_alt_l) = Some ''alt''"
  by (simp_all add: Key_shift_l_def Key_ctrl_l_def Key_alt_l_def)

lemma special_resolves_back_except_escape:
  "\<forall>(n, k) \<in> set special. n \<noteq> ''escape'' \<longrightarrow>
      to_key (JStr (the (Recorder_key_name (KeyMember k)))) = Inr (Some (InjKey k))"
  by (simp add: special_def to_key_def lower_def lower_char_def
      Key_shift_l_def Key_ctrl_l_def Key_alt_l_def)

text \<open>
  Claim C3. Every name of the table \<open>special\<close> is to be the name the recorder gives the key
  it maps to. The entry \<open>"escape"\<close> maps to \<open>Key.esc\<close>, which the recorder names \<open>"esc"\<close>, and
  \<open>_to_key\<close> resolves \<open>"esc"\<close> to nothing: a recorded Escape key is skipped on replay. Of
  the other 37 entries, 34 carry the name the recorder gives their key
  (\<open>special_names_except_escape_and_aliases\<close>); \<open>"shift_l"\<close>, \<open>"ctrl_l"\<close> and \<open>"alt_l"\<close> map to keys
  the recorder names \<open>"shift"\<close>, \<open>"ctrl"\<close> and \<open>"alt"\<close> (\<open>special_aliases\<close>), names that resolve to
  the same key, so that every entry but \<open>"escape"\<close> resolves back on replay
  (\<open>special_resolves_back_except_escape\<close>). An unknown name of several characters resolves to
  nothing (\<open>to_key_unrecognized\<close>).
\<close>

theorem C3_escape_asymmetric:
  "map_of special ''escape'' = Some Key_esc
   \<and> to_key (JStr ''escape'') = Inr (Some (InjKey Key_esc))
   \<and> Recorder_key_name (KeyMember Key_esc) = Some ''esc''
   \<and> to_key (JStr ''esc'') = Inr None"
  by (simp add: special_def to_key_def lower_escape)

section \<open>Throttling of mouse moves\<close>

lemma float_sub_gap:
  assumes "\<not> float_sub t l < INTERVAL" and "\<bar>t - l\<bar> \<le> 1"
  shows "l + 199 / 10000 \<le> t"
proof -
  have "\<bar>to_double (t - l) - (t - l)\<bar> \<le> \<bar>t - l\<bar> / 2 ^ 53 + 1 / 2 ^ 64"
    by (rule to_double_near)
  also have "\<dots> \<le> 1 / 2 ^ 53 + 1 / 2 ^ 64"
    using assms(2) by (simp add: divide_right_mono)
  also have "\<dots> < 1 / 100000" by simp
  finally have "to_double (t - l) < t - l + 1 / 100000" by linarith
  moreover from assms(1) INTERVAL_bounds(1) have "19999 / 1000000 < to_double (t - l)"
    by (simp add: float_sub_def)
  ultimately show ?thesis by linarith
qed

lemma float_sub_small:
  assumes "0 \<le> t" and "t \<le> 19 / 1000"
  shows "float_sub t 0 < INTERVAL"
proof -
  have "\<bar>to_double t - t\<bar> \<le> \<bar>t\<bar> / 2 ^ 53 + 1 / 2 ^ 64"
    by (rule to_double_near)
  also have "\<dots> \<le> (19 / 1000) / 2 ^ 53 + 1 / 2 ^ 64"
    using assms by (simp add: divide_right_mono)
  also have "\<dots> < 1 / 100000" by simp
  finally have "to_double t < t + 1 / 100000" by linarith
  with assms INTERVAL_bounds(1) show ?thesis
    by (simp add: float_sub_def)
qed

lemma on_move_cases:
  "r_recording r \<Longrightarrow>
   (float_sub (Recorder_ts r now) (r_last_move r) < INTERVAL \<longrightarrow> Recorder_on_move r now x y = r)
   \<and> (\<not> float_sub (Recorder_ts r now) (r_last_move r) < INTERVAL \<longrightarrow>
        Recorder_on_move r now x y =
          r\<lparr>r_last_move := Recorder_ts r now,
            r_events := r_events r
              @ [(mk_event MOUSE_MOVE (Recorder_ts r now))
                   \<lparr>e_x := JInt (py_int x), e_y := JInt (py_int y)\<rparr>]\<rparr>)"
  by (simp add: Recorder_on_move_def Recorder_add_def Let_def)

lemma feed_moves_spacing:
  assumes "r_recording r" and "b - 1 \<le> a"
    and "b - 1 \<le> r_last_move r" and "r_last_move r \<le> b"
    and "\<forall>(now, x, y) \<in> set ms. a \<le> Recorder_ts r now \<and> Recorder_ts r now \<le> b"
  shows "length (r_events r) \<le> length (r_events (feed_moves r ms))
    \<and> (length (r_events (feed_moves r ms)) = length (r_events r)
         \<longrightarrow> r_last_move (feed_moves r ms) = r_last_move r)
    \<and> (length (r_events r) < length (r_events (feed_moves r ms))
         \<longrightarrow> max a (r_last_move r + 199 / 10000)
               + real (length (r_events (feed_moves r ms)) - length (r_events r) - 1)
                 * (199 / 10000)
               \<le> r_last_move (feed_moves r ms)
             \<and> r_last_move (feed_moves r ms) \<le> b)"
  using assms(1,3,4,5)
proof (induction ms arbitrary: r)
  case Nil
  then show ?case by simp
next
  case (Cons m ms)
  obtain now x y where m: "m = (now, x, y)" by (cases m)
  let ?t = "Recorder_ts r now"
  let ?r1 = "Recorder_on_move r now x y"
  from Cons.prems have t: "a \<le> ?t" "?t \<le> b" by (simp_all add: m)
  show ?case
  proof (cases "float_sub ?t (r_last_move r) < INTERVAL")
    case True
    with Cons.prems(1) have r1: "?r1 = r"
      using on_move_cases [of r now x y] by simp
    from Cons.prems have "\<forall>(now, x, y) \<in> set ms.
        a \<le> Recorder_ts r now \<and> Recorder_ts r now \<le> b"
      by simp
    from Cons.IH [OF Cons.prems(1,2,3) this] show ?thesis
      by (simp add: m r1)
  next
    case False
    with Cons.prems(1) have r1: "?r1 = r\<lparr>r_last_move := ?t,
        r_events := r_events r @ [(mk_event MOUSE_MOVE ?t)
                   \<lparr>e_x := JInt (py_int x), e_y := JInt (py_int y)\<rparr>]\<rparr>"
      using on_move_cases [of r now x y] by simp
    have rec1: "r_recording ?r1" and ts1: "\<And>now'. Recorder_ts ?r1 now' = Recorder_ts r now'"
      and last1: "r_last_move ?r1 = ?t"
      and len1: "length (r_events ?r1) = Suc (length (r_events r))"
      using Cons.prems(1) by (simp_all add: r1 Recorder_ts_def)
    from t assms(2) Cons.prems(2,3) have "\<bar>?t - r_last_move r\<bar> \<le> 1" by linarith
    with False have lo: "r_last_move r + 199 / 10000 \<le> ?t"
      by (rule float_sub_gap)
    from Cons.prems have "\<forall>(now, x, y) \<in> set ms.
        a \<le> Recorder_ts ?r1 now \<and> Recorder_ts ?r1 now \<le> b"
      by (simp add: ts1)
    moreover from t assms(2) have "b - 1 \<le> r_last_move ?r1" "r_last_move ?r1 \<le> b"
      by (simp_all add: last1)
    ultimately have IH: "length (r_events ?r1) \<le> length (r_events (feed_moves ?r1 ms))
      \<and> (length (r_events (feed_moves ?r1 ms)) = length (r_events ?r1)
           \<longrightarrow> r_last_move (feed_moves ?r1 ms) = r_last_move ?r1)
      \<and> (length (r_events ?r1) < length (r_events (feed_moves ?r1 ms))
           \<longrightarrow> max a (r_last_move ?r1 + 199 / 10000)
                 + real (length (r_events (feed_moves ?r1 ms)) - length (r_events ?r1) - 1)
                   * (199 / 10000)
                 \<le> r_last_move (feed_moves ?r1 ms)
               \<and> r_last_move (feed_moves ?r1 ms) \<le> b)"
      using rec1 by (intro Cons.IH) 
    define n' where "n' = length (r_events (feed_moves ?r1 ms))"
    define l' where "l' = r_last_move (feed_moves ?r1 ms)"
    define n where "n = length (r_events r)"
    from IH have ge: "Suc n \<le> n'"
      and eq: "n' = Suc n \<Longrightarrow> l' = ?t"
      and gt: "Suc n < n' \<Longrightarrow>
          max a (?t + 199 / 10000) + real (n' - Suc n - 1) * (199 / 10000) \<le> l' \<and> l' \<le> b"
      by (simp_all add: n'_def l'_def n_def len1 last1)
    have "max a (r_last_move r + 199 / 10000) + real (n' - n - 1) * (199 / 10000) \<le> l'
        \<and> l' \<le> b"
    proof (cases "n' = Suc n")
      case True
      with eq lo t show ?thesis by simp
    next
      case False
      with ge have lt: "Suc n < n'" by simp
      then have "n' - n - 1 = Suc (n' - Suc n - 1)" by arith
      then have "real (n' - n - 1) = real (n' - Suc n - 1) + 1"
        by (simp only: of_nat_Suc)
      then have "real (n' - n - 1) * (199 / 10000)
          = real (n' - Suc n - 1) * (199 / 10000) + 199 / 10000"
        by (simp only: distrib_right mult_1)
      moreover from gt [OF lt]
      have "?t + 199 / 10000 + real (n' - Suc n - 1) * (199 / 10000) \<le> l'"
        and "l' \<le> b" by linarith+
      ultimately show ?thesis using lo t by (intro conjI; linarith)
    qed
    with ge show ?thesis
      by (simp add: m n'_def l'_def n_def)
  qed
qed


lemma feed_moves_count:
  assumes "r_recording r" and "b - 1 \<le> a"
    and "\<forall>(now, x, y) \<in> set ms. a \<le> Recorder_ts r now \<and> Recorder_ts r now \<le> b"
  shows "length (r_events r) \<le> length (r_events (feed_moves r ms))
    \<and> (length (r_events r) < length (r_events (feed_moves r ms))
         \<longrightarrow> a + real (length (r_events (feed_moves r ms)) - length (r_events r) - 1)
                   * (199 / 10000)
               \<le> b)"
  using assms(1,3)
proof (induction ms arbitrary: r)
  case Nil
  then show ?case by simp
next
  case (Cons m ms)
  obtain now x y where m: "m = (now, x, y)" by (cases m)
  let ?t = "Recorder_ts r now"
  let ?r1 = "Recorder_on_move r now x y"
  from Cons.prems have t: "a \<le> ?t" "?t \<le> b" by (simp_all add: m)
  show ?case
  proof (cases "float_sub ?t (r_last_move r) < INTERVAL")
    case True
    with Cons.prems(1) have r1: "?r1 = r"
      using on_move_cases [of r now x y] by simp
    from Cons.prems have "\<forall>(now, x, y) \<in> set ms.
        a \<le> Recorder_ts r now \<and> Recorder_ts r now \<le> b"
      by simp
    from Cons.IH [OF Cons.prems(1) this] show ?thesis
      by (simp add: m r1)
  next
    case False
    with Cons.prems(1) have r1: "?r1 = r\<lparr>r_last_move := ?t,
        r_events := r_events r @ [(mk_event MOUSE_MOVE ?t)
                   \<lparr>e_x := JInt (py_int x), e_y := JInt (py_int y)\<rparr>]\<rparr>"
      using on_move_cases [of r now x y] by simp
    have rec1: "r_recording ?r1" and ts1: "\<And>now'. Recorder_ts ?r1 now' = Recorder_ts r now'"
      and last1: "r_last_move ?r1 = ?t"
      and len1: "length (r_events ?r1) = Suc (length (r_events r))"
      using Cons.prems(1) by (simp_all add: r1 Recorder_ts_def)
    from Cons.prems have ms: "\<forall>(now, x, y) \<in> set ms.
        a \<le> Recorder_ts ?r1 now \<and> Recorder_ts ?r1 now \<le> b"
      by (simp add: ts1)
    from t assms(2) have w: "b - 1 \<le> r_last_move ?r1" "r_last_move ?r1 \<le> b"
      by (simp_all add: last1)
    define n' where "n' = length (r_events (feed_moves ?r1 ms))"
    define l' where "l' = r_last_move (feed_moves ?r1 ms)"
    define n where "n = length (r_events r)"
    from feed_moves_spacing [OF rec1 assms(2) w ms]
    have ge: "Suc n \<le> n'"
      and gt: "Suc n < n' \<Longrightarrow>
          max a (?t + 199 / 10000) + real (n' - Suc n - 1) * (199 / 10000) \<le> l' \<and> l' \<le> b"
      by (simp_all add: n'_def l'_def n_def len1 last1)
    have "a + real (n' - n - 1) * (199 / 10000) \<le> b"
    proof (cases "n' = Suc n")
      case True
      with t show ?thesis by simp
    next
      case False
      with ge have lt: "Suc n < n'" by simp
      then have "n' - n - 1 = Suc (n' - Suc n - 1)" by arith
      then have "real (n' - n - 1) = real (n' - Suc n - 1) + 1"
        by (simp only: of_nat_Suc)
      then have "real (n' - n - 1) * (199 / 10000)
          = real (n' - Suc n - 1) * (199 / 10000) + 199 / 10000"
        by (simp only: distrib_right mult_1)
      moreover from gt [OF lt]
      have "?t + 199 / 10000 + real (n' - Suc n - 1) * (199 / 10000) \<le> b"
        by linarith
      ultimately show ?thesis using t by linarith
    qed
    with ge show ?thesis
      by (simp add: m n'_def n_def)
  qed
qed

lemma feed_moves_window:
  assumes "\<not> r_recording r" and "0 \<le> d" and "d \<le> 2 ^ 32"
    and "\<forall>(now, x, y) \<in> set ms. t0 + d \<le> now \<and> now \<le> t0 + d + 200 / 1000"
  shows "length (r_events (feed_moves (Recorder_start r t0) ms)) \<le> 11"
proof -
  let ?r0 = "Recorder_start r t0"
  let ?r' = "feed_moves ?r0 ms"
  from assms(1) have r0: "r_recording ?r0" "r_start_time ?r0 = t0" "r_events ?r0 = []"
    by (simp_all add: Recorder_start_def)
  have near: "d - 1 / 1000 \<le> Recorder_ts ?r0 now \<and> Recorder_ts ?r0 now \<le> d + 201 / 1000"
    if "t0 + d \<le> now" "now \<le> t0 + d + 200 / 1000" for now
  proof -
    from that assms(2,3) have x: "0 \<le> now - t0" "now - t0 \<le> 2 ^ 32 + 1" by linarith+
    have "\<bar>to_double (now - t0) - (now - t0)\<bar> \<le> \<bar>now - t0\<bar> / 2 ^ 53 + 1 / 2 ^ 64"
      by (rule to_double_near)
    also have "\<dots> \<le> (2 ^ 32 + 1) / 2 ^ 53 + 1 / 2 ^ 64"
      using x by (simp add: divide_right_mono)
    also have "\<dots> < 1 / 1000" by simp
    finally have "\<bar>to_double (now - t0) - (now - t0)\<bar> < 1 / 1000" .
    with that have "d - 1 / 1000 \<le> to_double (now - t0)"
      and "to_double (now - t0) \<le> d + 201 / 1000"
      by linarith+
    then show ?thesis
      by (simp add: Recorder_ts_def float_sub_def r0)
  qed
  with assms(4) have "\<forall>(now, x, y) \<in> set ms.
      d - 1 / 1000 \<le> Recorder_ts ?r0 now \<and> Recorder_ts ?r0 now \<le> d + 201 / 1000"
    by auto
  with feed_moves_count [OF r0(1), of "d + 201 / 1000" "d - 1 / 1000" ms]
  have sp: "0 < length (r_events ?r') \<Longrightarrow>
      d - 1 / 1000 + real (length (r_events ?r') - 1) * (199 / 10000) \<le> d + 201 / 1000"
    by (simp add: r0)
  show ?thesis
  proof (cases "length (r_events ?r')")
    case 0
    then show ?thesis by simp
  next
    case (Suc k)
    with sp have "real k * (199 / 10000) \<le> 202 / 1000" by simp
    then have "real k < 11" by simp
    then have "k \<le> 10" by simp
    with Suc show ?thesis by simp
  qed
qed


lemma binary_exponent_numeral:
  "binary_exponent (numeral k) y =
     (if 2 \<le> y then binary_exponent (pred_numeral k) (y / 2) + 1
      else if y < 1 then binary_exponent (pred_numeral k) (y * 2) - 1
      else 0)"
  by (simp add: numeral_eq_Suc)

lemma INTERVAL_value: "INTERVAL = 5764607523034235 / 2 ^ 58"
  by (simp add: INTERVAL_def to_double_def binary_exponent_numeral round_half_even_def Let_def
      power_int_minus_divide)

text \<open>
  Claim C6, as stated, fails. It has a move notification discarded only when less than 20 ms
  have passed since the last recorded move, and appended otherwise. \<open>start\<close> sets the marker \<open>_last_move\<close> to \<open>0.0\<close>, the elapsed time of the start itself, so in a
  session started at clock reading 100 the first move, notified 1/128 s later with no move
  recorded before it, is discarded: the buffer stays empty and the marker unchanged.
\<close>

theorem C6_first_moves_discarded:
  "r_events (Recorder_start Recorder_init 100) = []
   \<and> Recorder_on_move (Recorder_start Recorder_init 100) (100 + 1 / 128) 5 7
       = Recorder_start Recorder_init 100"
proof -
  let ?r = "Recorder_start Recorder_init 100"
  have r: "r_recording ?r" "r_events ?r = []" "r_last_move ?r = 0" "r_start_time ?r = 100"
    by (simp_all add: Recorder_start_def Recorder_init_def)
  have ts: "Recorder_ts ?r (100 + 1 / 128) = to_double (1 / 128)"
    by (simp add: Recorder_ts_def float_sub_def r)
  have "\<bar>to_double (1 / 128) - 1 / 128\<bar> \<le> \<bar>1 / 128 :: real\<bar> / 2 ^ 53 + 1 / 2 ^ 64"
    by (rule to_double_near)
  also have "\<dots> < 1 / 1000" by simp
  finally have "0 \<le> to_double (1 / 128)" "to_double (1 / 128) \<le> 19 / 1000"
    by linarith+
  then have "float_sub (Recorder_ts ?r (100 + 1 / 128)) (r_last_move ?r) < INTERVAL"
    unfolding ts r by (rule float_sub_small)
  then have "Recorder_on_move ?r (100 + 1 / 128) 5 7 = ?r"
    using on_move_cases [of ?r "100 + 1 / 128" 5 7] r(1) by simp
  with r(2) show ?thesis by simp
qed

text \<open>
  Claim C6, amended. While recording, a move notification is discarded exactly when the
  float difference of its elapsed time and the marker \<open>_last_move\<close> is less than the double
  \<open>0.02\<close> (\<open>5764607523034235 / 2^58\<close>); any other one appends a \<open>MOUSE_MOVE\<close> event stamped
  with the elapsed time and sets the marker to it. The marker is the stamp of the last
  recorded move, or \<open>0.0\<close> from \<open>start\<close> until the first move is recorded, so moves in the
  first 20 ms of a session are discarded. For a recorder just started and any stream of
  notifications whose clock readings lie in a window of 200 ms that begins \<open>d\<close> seconds after
  the start (\<open>0 \<le> d \<le> 2^32\<close>), a stream at 1 ms intervals over 200 ms among them, at most
  \<open>200/20 + 1 = 11\<close> \<open>MOUSE_MOVE\<close> events are in the buffer.
\<close>

theorem C6_move_throttling:
  "(r_recording r \<longrightarrow>
      (float_sub (Recorder_ts r now) (r_last_move r) < INTERVAL
         \<longrightarrow> Recorder_on_move r now x y = r)
      \<and> (\<not> float_sub (Recorder_ts r now) (r_last_move r) < INTERVAL \<longrightarrow>
           Recorder_on_move r now x y =
             r\<lparr>r_last_move := Recorder_ts r now,
               r_events := r_events r
                 @ [(mk_event MOUSE_MOVE (Recorder_ts r now))
                      \<lparr>e_x := JInt (py_int x), e_y := JInt (py_int y)\<rparr>]\<rparr>))
   \<and> INTERVAL = 5764607523034235 / 2 ^ 58
   \<and> (\<not> r_recording r0 \<longrightarrow>
        r_last_move (Recorder_start r0 t0) = 0 \<and> r_events (Recorder_start r0 t0) = [])
   \<and> (\<not> r_recording r0 \<and> 0 \<le> d \<and> d \<le> 2 ^ 32
        \<and> (\<forall>(now, x, y) \<in> set ms. t0 + d \<le> now \<and> now \<le> t0 + d + 200 / 1000) \<longrightarrow>
        length (filter (\<lambda>e. e_type e = MOUSE_MOVE)
          (r_events (feed_moves (Recorder_start r0 t0) ms)))
        \<le> 200 div 20 + 1)"
proof (intro conjI impI)
  assume "r_recording r" and "float_sub (Recorder_ts r now) (r_last_move r) < INTERVAL"
  then show "Recorder_on_move r now x y = r"
    using on_move_cases [of r now x y] by simp
next
  assume "r_recording r" and "\<not> float_sub (Recorder_ts r now) (r_last_move r) < INTERVAL"
  then show "Recorder_on_move r now x y =
             r\<lparr>r_last_move := Recorder_ts r now,
               r_events := r_events r
                 @ [(mk_event MOUSE_MOVE (Recorder_ts r now))
                      \<lparr>e_x := JInt (py_int x), e_y := JInt (py_int y)\<rparr>]\<rparr>"
    using on_move_cases [of r now x y] by simp
next
  show "INTERVAL = 5764607523034235 / 2 ^ 58" by (rule INTERVAL_value)
next
  assume "\<not> r_recording r0"
  then show "r_last_move (Recorder_start r0 t0) = 0"
    and "r_events (Recorder_start r0 t0) = []"
    by (simp_all add: Recorder_start_def)
next
  assume a: "\<not> r_recording r0 \<and> 0 \<le> d \<and> d \<le> 2 ^ 32
        \<and> (\<forall>(now, x, y) \<in> set ms. t0 + d \<le> now \<and> now \<le> t0 + d + 200 / 1000)"
  then have le: "length (r_events (feed_moves (Recorder_start r0 t0) ms)) \<le> 11"
    using feed_moves_window [of r0 d ms t0] by blast
  have "length (filter (\<lambda>e. e_type e = MOUSE_MOVE)
        (r_events (feed_moves (Recorder_start r0 t0) ms)))
      \<le> length (r_events (feed_moves (Recorder_start r0 t0) ms))"
    by (rule length_filter_le)
  also note le
  finally show "length (filter (\<lambda>e. e_type e = MOUSE_MOVE)
        (r_events (feed_moves (Recorder_start r0 t0) ms))) \<le> 200 div 20 + 1"
    by simp
qed


theorem C6_move_throttling_witness:
  "Recorder_on_move (Recorder_start Recorder_init 100) 100 5 7
     = Recorder_start Recorder_init 100
   \<and> r_events (Recorder_on_move (Recorder_start Recorder_init 100) 101 5 7)
     = [(mk_event MOUSE_MOVE 1)\<lparr>e_x := JInt 5, e_y := JInt 7\<rparr>]
   \<and> length (filter (\<lambda>e. e_type e = MOUSE_MOVE)
        (r_events (feed_moves (Recorder_start Recorder_init 100)
           (map (\<lambda>k. (100 + 0 + real k / 1000, 0, 0)) [0..<201]))))
      \<le> 200 div 20 + 1"
proof -
  let ?r = "Recorder_start Recorder_init 100"
  let ?ms = "map (\<lambda>k. (100 + 0 + real k / 1000, 0 :: real, 0 :: real)) [0..<201]"
  have rec: "r_recording ?r" and idle: "\<not> r_recording Recorder_init"
    and ev: "r_events ?r = []"
    by (simp_all add: Recorder_start_def Recorder_init_def)
  have t0: "Recorder_ts ?r 100 = 0" and t1: "Recorder_ts ?r 101 = 1"
    by (simp_all add: Recorder_ts_def float_sub_def Recorder_start_def Recorder_init_def
        to_double_0 to_double_1)
  have lm: "r_last_move ?r = 0"
    by (simp add: Recorder_start_def Recorder_init_def)
  have "float_sub (Recorder_ts ?r 100) (r_last_move ?r) = 0"
    and "float_sub (Recorder_ts ?r 101) (r_last_move ?r) = 1"
    unfolding t0 t1 lm by (simp_all add: float_sub_def to_double_0 to_double_1)
  with INTERVAL_bounds have ts: "float_sub (Recorder_ts ?r 100) (r_last_move ?r) < INTERVAL"
    "\<not> float_sub (Recorder_ts ?r 101) (r_last_move ?r) < INTERVAL"
    by linarith+
  have win: "\<not> r_recording Recorder_init \<and> (0::real) \<le> 0 \<and> (0::real) \<le> 2 ^ 32
      \<and> (\<forall>(now, x, y) \<in> set ?ms. 100 + 0 \<le> now \<and> now \<le> 100 + 0 + 200 / 1000)"
    using idle by auto
  have 1: "Recorder_on_move ?r 100 5 7 = ?r"
    using C6_move_throttling [of ?r 100 5 7 Recorder_init 100 0 ?ms] rec ts(1)
    by blast
  have "Recorder_on_move ?r 101 5 7 =
      ?r\<lparr>r_last_move := Recorder_ts ?r 101,
         r_events := r_events ?r
           @ [(mk_event MOUSE_MOVE (Recorder_ts ?r 101))
                \<lparr>e_x := JInt (py_int 5), e_y := JInt (py_int 7)\<rparr>]\<rparr>"
    using C6_move_throttling [of ?r 101 5 7 Recorder_init 100 0 ?ms] rec ts(2)
    by blast
  then have 2: "r_events (Recorder_on_move ?r 101 5 7)
      = [(mk_event MOUSE_MOVE 1)\<lparr>e_x := JInt 5, e_y := JInt 7\<rparr>]"
    by (simp add: t1 ev py_int_def)
  have 3: "length (filter (\<lambda>e. e_type e = MOUSE_MOVE)
        (r_events (feed_moves (Recorder_start Recorder_init 100) ?ms)))
      \<le> 200 div 20 + 1"
    using C6_move_throttling [of ?r 101 5 7 Recorder_init 100 0 ?ms] win
    by blast
  from 1 2 3 show ?thesis by blast
qed

lemma throttle_on_doubles:
  "length (r_events (feed_moves (Recorder_start Recorder_init (to_double (2 / 10)))
      [(to_double (92 / 100), 0, 0), (to_double (94 / 100), 0, 0)])) = 2"
  by (simp add: Recorder_start_def Recorder_init_def Recorder_on_move_def Recorder_ts_def
      Recorder_add_def float_sub_def INTERVAL_value to_double_def binary_exponent_numeral
      round_half_even_def Let_def power_int_minus_divide)

section \<open>Injection of events with missing payload\<close>

text \<open>
  Claim C10. A \<open>MOUSE_CLICK\<close> event whose \<open>x\<close>, \<open>y\<close>, \<open>button\<close> or \<open>pressed\<close> is \<open>None\<close>, a
  \<open>MOUSE_SCROLL\<close> event whose \<open>x\<close> or \<open>y\<close> is \<open>None\<close> and a \<open>MOUSE_MOVE\<close> event whose \<open>x\<close> or
  \<open>y\<close> is \<open>None\<close> cause no controller call and no error report, whichever calls would raise.
  The coordinates of a click are only tested for presence: replacing them by any other
  present values leaves the effects of the click unchanged.
\<close>

theorem C10_missing_payload_skipped:
  "(e_type e = MOUSE_CLICK
      \<and> (e_x e = JNone \<or> e_y e = JNone \<or> e_button e = JNone \<or> e_pressed e = JNone)
      \<longrightarrow> play_event raises e = [])
   \<and> (e_type e = MOUSE_SCROLL \<and> (e_x e = JNone \<or> e_y e = JNone)
      \<longrightarrow> play_event raises e = [])
   \<and> (e_type e = MOUSE_MOVE \<and> (e_x e = JNone \<or> e_y e = JNone)
      \<longrightarrow> play_event raises e = [])
   \<and> (e_type e = MOUSE_CLICK \<and> e_x e \<noteq> JNone \<and> e_y e \<noteq> JNone \<and> x' \<noteq> JNone \<and> y' \<noteq> JNone
      \<longrightarrow> play_event raises (e\<lparr>e_x := x', e_y := y'\<rparr>) = play_event raises e)"
proof (intro conjI impI)
  assume "e_type e = MOUSE_CLICK
      \<and> (e_x e = JNone \<or> e_y e = JNone \<or> e_button e = JNone \<or> e_pressed e = JNone)"
  then show "play_event raises e = []"
    by (auto simp: play_event_def play_mouse_click_def)
next
  assume "e_type e = MOUSE_SCROLL \<and> (e_x e = JNone \<or> e_y e = JNone)"
  then show "play_event raises e = []"
    by (auto simp: play_event_def play_mouse_scroll_def)
next
  assume "e_type e = MOUSE_MOVE \<and> (e_x e = JNone \<or> e_y e = JNone)"
  then show "play_event raises e = []"
    by (auto simp: play_event_def play_mouse_move_def)
next
  assume "e_type e = MOUSE_CLICK \<and> e_x e \<noteq> JNone \<and> e_y e \<noteq> JNone \<and> x' \<noteq> JNone \<and> y' \<noteq> JNone"
  then show "play_event raises (e\<lparr>e_x := x', e_y := y'\<rparr>) = play_event raises e"
    by (simp add: play_event_def play_mouse_click_def)
qed

theorem C10_missing_payload_skipped_witness:
  "play_event (\<lambda>c. False)
      ((mk_event MOUSE_CLICK 0)\<lparr>e_button := JStr ''left'', e_pressed := JBool True\<rparr>) = []
   \<and> play_event (\<lambda>c. False)
      ((mk_event MOUSE_SCROLL 0)\<lparr>e_x := JInt 5, e_scroll_dy := JInt 1\<rparr>) = []
   \<and> play_event (\<lambda>c. False) ((mk_event MOUSE_MOVE 0)\<lparr>e_y := JInt 7\<rparr>) = []
   \<and> play_event (\<lambda>c. False)
      ((mk_event MOUSE_CLICK 0)\<lparr>e_x := JInt 900, e_y := JInt 400, e_button := JStr ''left'',
                                 e_pressed := JBool True\<rparr>)
     = [OsAction (MousePress Button_left)]"
proof -
  let ?c = "(mk_event MOUSE_CLICK 0)\<lparr>e_button := JStr ''left'', e_pressed := JBool True\<rparr>"
  let ?s = "(mk_event MOUSE_SCROLL 0)\<lparr>e_x := JInt 5, e_scroll_dy := JInt 1\<rparr>"
  let ?m = "(mk_event MOUSE_MOVE 0)\<lparr>e_y := JInt 7\<rparr>"
  let ?f = "(mk_event MOUSE_CLICK 0)\<lparr>e_x := JInt 1, e_y := JInt 2, e_button := JStr ''left'',
                                       e_pressed := JBool True\<rparr>"
  have 1: "play_event (\<lambda>c. False) ?c = []"
    using C10_missing_payload_skipped [of ?c "\<lambda>c. False"] by (simp add: mk_event_def)
  have 2: "play_event (\<lambda>c. False) ?s = []"
    using C10_missing_payload_skipped [of ?s "\<lambda>c. False"] by (simp add: mk_event_def)
  have 3: "play_event (\<lambda>c. False) ?m = []"
    using C10_missing_payload_skipped [of ?m "\<lambda>c. False"] by (simp add: mk_event_def)
  have "play_event (\<lambda>c. False) (?f\<lparr>e_x := JInt 900, e_y := JInt 400\<rparr>)
      = play_event (\<lambda>c. False) ?f"
    using C10_missing_payload_skipped [of ?f "\<lambda>c. False" "JInt 900" "JInt 400"]
    by (simp add: mk_event_def)
  moreover have "play_event (\<lambda>c. False) ?f = [OsAction (MousePress Button_left)]"
    by (simp add: play_event_def play_mouse_click_def mk_event_def)
  ultimately have 4: "play_event (\<lambda>c. False)
      ((mk_event MOUSE_CLICK 0)\<lparr>e_x := JInt 900, e_y := JInt 400, e_button := JStr ''left'',
                                 e_pressed := JBool True\<rparr>)
     = [OsAction (MousePress Button_left)]"
    by (simp add: mk_event_def)
  from 1 2 3 4 show ?thesis by blast
qed

section \<open>One pass over the timeline\<close>

lemma played_append: "played (xs @ ys) = played xs @ played ys"
  by (induction xs rule: played.induct) simp_all

lemma play_events_Cons:
  "play_events w start (e # es) t =
     (if stop_flag_at w (n_flag t)
      then t\<lparr>n_flag := Suc (n_flag t), trace := trace t @ [FlagRead True]\<rparr>
      else play_events w start es
             (t\<lparr>n_flag := Suc (n_flag t), n_clock := Suc (n_clock t),
                trace := trace t @ FlagRead False
                  # (if 0 < start + e_timestamp e - perf_counter_at w (n_clock t)
                     then [Sleep (start + e_timestamp e - perf_counter_at w (n_clock t))]
                     else [])
                  @ [Play e]\<rparr>))"
  by (simp add: read_flag_def read_clock_def emit_def Let_def)

lemma play_events_n_flag_mono: "n_flag t \<le> n_flag (play_events w start evs t)"
proof (induction evs arbitrary: t)
  case Nil
  then show ?case by simp
next
  case (Cons e es)
  show ?case
  proof (cases "stop_flag_at w (n_flag t)")
    case True
    then show ?thesis by (simp add: play_events_Cons del: play_events.simps)
  next
    case False
    let ?t' = "t\<lparr>n_flag := Suc (n_flag t), n_clock := Suc (n_clock t),
                trace := trace t @ FlagRead False
                  # (if 0 < start + e_timestamp e - perf_counter_at w (n_clock t)
                     then [Sleep (start + e_timestamp e - perf_counter_at w (n_clock t))]
                     else [])
                  @ [Play e]\<rparr>"
    have "n_flag ?t' \<le> n_flag (play_events w start es ?t')" by (rule Cons.IH)
    with False show ?thesis by (simp add: play_events_Cons del: play_events.simps)
  qed
qed

lemma play_events_trace:
  "\<exists>m\<le>length evs.
     (\<forall>i<m. \<not> stop_flag_at w (n_flag t + i))
   \<and> (m < length evs \<longrightarrow> stop_flag_at w (n_flag t + m))
   \<and> n_flag (play_events w start evs t) = n_flag t + m + (if m < length evs then 1 else 0)
   \<and> n_clock (play_events w start evs t) = n_clock t + m
   \<and> trace (play_events w start evs t) =
       trace t
       @ concat (map (\<lambda>i. FlagRead False
                    # (if 0 < start + e_timestamp (evs ! i) - perf_counter_at w (n_clock t + i)
                       then [Sleep (start + e_timestamp (evs ! i)
                                    - perf_counter_at w (n_clock t + i))]
                       else [])
                    @ [Play (evs ! i)]) [0..<m])
       @ (if m < length evs then [FlagRead True] else [])"
proof (induction evs arbitrary: t)
  case Nil
  then show ?case by simp
next
  case (Cons e es)
  show ?case
  proof (cases "stop_flag_at w (n_flag t)")
    case True
    then show ?thesis
      by (intro exI [of _ 0]) (simp add: play_events_Cons del: play_events.simps)
  next
    case False
    define blk where "blk = FlagRead False
        # (if 0 < start + e_timestamp e - perf_counter_at w (n_clock t)
           then [Sleep (start + e_timestamp e - perf_counter_at w (n_clock t))] else [])
        @ [Play e]"
    define t' where "t' = t\<lparr>n_flag := Suc (n_flag t), n_clock := Suc (n_clock t),
        trace := trace t @ blk\<rparr>"
    have step: "play_events w start (e # es) t = play_events w start es t'"
      using False unfolding t'_def blk_def by (simp add: play_events_Cons del: play_events.simps)
    have t': "n_flag t' = Suc (n_flag t)" "n_clock t' = Suc (n_clock t)"
      "trace t' = trace t @ blk"
      by (simp_all add: t'_def)
    from Cons.IH [of t'] obtain m where m: "m \<le> length es"
      and clear: "\<forall>i<m. \<not> stop_flag_at w (n_flag t' + i)"
      and hit: "m < length es \<longrightarrow> stop_flag_at w (n_flag t' + m)"
      and nf: "n_flag (play_events w start es t')
          = n_flag t' + m + (if m < length es then 1 else 0)"
      and nc: "n_clock (play_events w start es t') = n_clock t' + m"
      and tr: "trace (play_events w start es t') =
         trace t'
         @ concat (map (\<lambda>i. FlagRead False
                    # (if 0 < start + e_timestamp (es ! i) - perf_counter_at w (n_clock t' + i)
                       then [Sleep (start + e_timestamp (es ! i)
                                    - perf_counter_at w (n_clock t' + i))]
                       else [])
                    @ [Play (es ! i)]) [0..<m])
         @ (if m < length es then [FlagRead True] else [])"
      by blast
    have c: "\<forall>i<Suc m. \<not> stop_flag_at w (n_flag t + i)"
    proof (intro allI impI)
      fix i assume "i < Suc m"
      show "\<not> stop_flag_at w (n_flag t + i)"
      proof (cases i)
        case 0
        with False show ?thesis by simp
      next
        case (Suc j)
        with \<open>i < Suc m\<close> clear show ?thesis by (simp add: t')
      qed
    qed
    have blocks: "concat (map (\<lambda>i. FlagRead False
                    # (if 0 < start + e_timestamp ((e # es) ! i)
                            - perf_counter_at w (n_clock t + i)
                       then [Sleep (start + e_timestamp ((e # es) ! i)
                                    - perf_counter_at w (n_clock t + i))]
                       else [])
                    @ [Play ((e # es) ! i)]) [0..<Suc m])
        = blk @ concat (map (\<lambda>i. FlagRead False
                    # (if 0 < start + e_timestamp (es ! i) - perf_counter_at w (n_clock t' + i)
                       then [Sleep (start + e_timestamp (es ! i)
                                    - perf_counter_at w (n_clock t' + i))]
                       else [])
                    @ [Play (es ! i)]) [0..<m])"
      by (simp only: map_upt_Suc concat.simps nth_Cons_0 nth_Cons_Suc t' blk_def
          add_0_right add_Suc_right add_Suc)
    show ?thesis
    proof (intro exI [of _ "Suc m"] conjI)
      show "Suc m \<le> length (e # es)" using m by simp
      show "\<forall>i<Suc m. \<not> stop_flag_at w (n_flag t + i)" by (rule c)
      show "Suc m < length (e # es) \<longrightarrow> stop_flag_at w (n_flag t + Suc m)"
        using hit by (simp add: t')
      show "n_flag (play_events w start (e # es) t)
          = n_flag t + Suc m + (if Suc m < length (e # es) then 1 else 0)"
        unfolding step nf by (simp add: t')
      show "n_clock (play_events w start (e # es) t) = n_clock t + Suc m"
        unfolding step nc by (simp add: t')
      show "trace (play_events w start (e # es) t) =
         trace t
         @ concat (map (\<lambda>i. FlagRead False
                    # (if 0 < start + e_timestamp ((e # es) ! i)
                            - perf_counter_at w (n_clock t + i)
                       then [Sleep (start + e_timestamp ((e # es) ! i)
                                    - perf_counter_at w (n_clock t + i))]
                       else [])
                    @ [Play ((e # es) ! i)]) [0..<Suc m])
         @ (if Suc m < length (e # es) then [FlagRead True] else [])"
        unfolding step tr blocks by (simp add: t')
    qed
  qed
qed


lemma played_blocks:
  assumes "m \<le> length evs" and "\<And>i. played (pre i) = []"
  shows "played (concat (map (\<lambda>i. FlagRead False # pre i @ [Play (evs ! i)]) [0..<m]))
           = take m evs"
  using assms(1)
proof (induction m)
  case 0
  then show ?case by simp
next
  case (Suc m)
  then have "played (concat (map (\<lambda>i. FlagRead False # pre i @ [Play (evs ! i)]) [0..<m]))
      = take m evs" by simp
  moreover from Suc.prems have "take (Suc m) evs = take m evs @ [evs ! m]"
    by (simp add: take_Suc_conv_app_nth)
  ultimately show ?case
    by (simp add: played_append assms(2))
qed

lemma play_events_summary:
  "\<exists>m ext. m \<le> length evs
     \<and> (\<forall>i<m. \<not> stop_flag_at w (n_flag t + i))
     \<and> (m < length evs \<longrightarrow> stop_flag_at w (n_flag t + m))
     \<and> n_flag (play_events w start evs t) = n_flag t + m + (if m < length evs then 1 else 0)
     \<and> trace (play_events w start evs t) = trace t @ ext
     \<and> played ext = take m evs
     \<and> OnComplete \<notin> set ext
     \<and> (FlagRead True \<in> set ext \<longleftrightarrow> m < length evs)"
proof -
  define pre where "pre = (\<lambda>i. if 0 < start + e_timestamp (evs ! i)
                                     - perf_counter_at w (n_clock t + i)
      then [Sleep (start + e_timestamp (evs ! i) - perf_counter_at w (n_clock t + i))]
      else [])"
  define blocks where
    "blocks = (\<lambda>m. concat (map (\<lambda>i. FlagRead False # pre i @ [Play (evs ! i)]) [0..<m]))"
  from play_events_trace [of evs w t start] obtain m where m: "m \<le> length evs"
    and clear: "\<forall>i<m. \<not> stop_flag_at w (n_flag t + i)"
    and hit: "m < length evs \<longrightarrow> stop_flag_at w (n_flag t + m)"
    and nf: "n_flag (play_events w start evs t)
        = n_flag t + m + (if m < length evs then 1 else 0)"
    and tr: "trace (play_events w start evs t)
        = trace t @ blocks m @ (if m < length evs then [FlagRead True] else [])"
    unfolding blocks_def pre_def by blast
  have pre: "played (pre i) = []" for i
    by (simp add: pre_def)
  have pl: "played (blocks m) = take m evs"
    unfolding blocks_def using m pre by (rule played_blocks)
  have nc: "OnComplete \<notin> set (blocks m)" and nt: "FlagRead True \<notin> set (blocks m)"
    by (auto simp: blocks_def pre_def split: if_splits)
  let ?ext = "blocks m @ (if m < length evs then [FlagRead True] else [])"
  have "played ?ext = take m evs"
    by (simp add: played_append pl)
  moreover have "OnComplete \<notin> set ?ext"
    using nc by simp
  moreover have "FlagRead True \<in> set ?ext \<longleftrightarrow> m < length evs"
    using nt by simp
  ultimately show ?thesis
    using m clear hit nf tr by blast
qed

lemma play_once_summary:
  "\<exists>m ext. m \<le> length evs
     \<and> (\<forall>i<m. \<not> stop_flag_at w (n_flag t + i))
     \<and> (m < length evs \<longrightarrow> stop_flag_at w (n_flag t + m))
     \<and> n_flag (play_once w evs t) = n_flag t + m + (if m < length evs then 1 else 0)
     \<and> trace (play_once w evs t) = trace t @ ext
     \<and> played ext = take m evs
     \<and> OnComplete \<notin> set ext
     \<and> (FlagRead True \<in> set ext \<longleftrightarrow> m < length evs)"
proof (cases "evs = []")
  case True
  then show ?thesis
    by (intro exI [of _ 0] exI [of _ "[]"]) (simp add: play_once_def)
next
  case False
  let ?t1 = "t\<lparr>n_clock := Suc (n_clock t)\<rparr>"
  have "play_once w evs t = play_events w (perf_counter_at w (n_clock t)) evs ?t1"
    using False by (simp add: play_once_def read_clock_def)
  with play_events_summary [of evs w ?t1 "perf_counter_at w (n_clock t)"]
  show ?thesis by simp
qed

section \<open>The loop of the replay thread\<close>

lemma run_loop_Suc:
  "run_loop (Suc fuel) w p loop t =
     (if stop_flag_at w (n_flag t)
      then Some (loop, t\<lparr>n_flag := Suc (n_flag t), trace := trace t @ [FlagRead True]\<rparr>)
      else if 0 < p_loop_count p \<and> p_loop_count p \<le> int (Suc loop)
      then Some (Suc loop,
             play_once w (p_events p)
               (t\<lparr>n_flag := Suc (n_flag t), trace := trace t @ [FlagRead False]\<rparr>))
      else run_loop fuel w p (Suc loop)
             (play_once w (p_events p)
               (t\<lparr>n_flag := Suc (n_flag t), trace := trace t @ [FlagRead False]\<rparr>)))"
  by (simp add: read_flag_def Let_def)


lemma run_loop_Suc_stop:
  assumes "stop_flag_at w (n_flag t)"
  shows "run_loop (Suc fuel) w p loop t
    = Some (loop, t\<lparr>n_flag := Suc (n_flag t), trace := trace t @ [FlagRead True]\<rparr>)"
  using assms by (simp only: run_loop_Suc if_True)

lemma run_loop_Suc_break:
  assumes "\<not> stop_flag_at w (n_flag t)"
    and "0 < p_loop_count p \<and> p_loop_count p \<le> int (Suc loop)"
  shows "run_loop (Suc fuel) w p loop t
    = Some (Suc loop,
        play_once w (p_events p)
          (t\<lparr>n_flag := Suc (n_flag t), trace := trace t @ [FlagRead False]\<rparr>))"
  using assms by (simp only: run_loop_Suc if_True if_False simp_thms)

lemma run_loop_Suc_continue:
  assumes "\<not> stop_flag_at w (n_flag t)"
    and "\<not> (0 < p_loop_count p \<and> p_loop_count p \<le> int (Suc loop))"
  shows "run_loop (Suc fuel) w p loop t
    = run_loop fuel w p (Suc loop)
        (play_once w (p_events p)
          (t\<lparr>n_flag := Suc (n_flag t), trace := trace t @ [FlagRead False]\<rparr>))"
  using assms by (simp only: run_loop_Suc if_False simp_thms)

lemma pass_clear:
  assumes "\<forall>i\<le>length evs. \<not> stop_flag_at w (n_flag t + i)"
  shows "\<exists>ext. n_flag (play_once w evs
                 (t\<lparr>n_flag := Suc (n_flag t), trace := trace t @ [FlagRead False]\<rparr>))
               = n_flag t + Suc (length evs)
     \<and> trace (play_once w evs
                 (t\<lparr>n_flag := Suc (n_flag t), trace := trace t @ [FlagRead False]\<rparr>))
         = trace t @ ext
     \<and> played ext = evs \<and> OnComplete \<notin> set ext \<and> FlagRead True \<notin> set ext"
proof -
  let ?t1 = "t\<lparr>n_flag := Suc (n_flag t), trace := trace t @ [FlagRead False]\<rparr>"
  from play_once_summary [of evs w ?t1] obtain m ext where m: "m \<le> length evs"
    and hit: "m < length evs \<longrightarrow> stop_flag_at w (n_flag ?t1 + m)"
    and nf: "n_flag (play_once w evs ?t1) = n_flag ?t1 + m + (if m < length evs then 1 else 0)"
    and tr: "trace (play_once w evs ?t1) = trace ?t1 @ ext"
    and pl: "played ext = take m evs"
    and nc: "OnComplete \<notin> set ext"
    and ft: "FlagRead True \<in> set ext \<longleftrightarrow> m < length evs"
    by blast
  have "m = length evs"
  proof (rule ccontr)
    assume "m \<noteq> length evs"
    with m have lt: "m < length evs" by simp
    with hit have "stop_flag_at w (n_flag t + Suc m)" by simp
    moreover from lt have "\<not> stop_flag_at w (n_flag t + Suc m)"
      using assms [rule_format, of "Suc m"] by simp
    ultimately show False by simp
  qed
  with nf tr pl nc ft show ?thesis
    by (intro exI [of _ "FlagRead False # ext"]) simp
qed

lemma run_loop_forever:
  assumes "\<forall>k. \<not> stop_flag_at w k" and "p_loop_count p \<le> 0"
  shows "run_loop fuel w p loop t = None"
proof (induction fuel arbitrary: loop t)
  case 0
  then show ?case by simp
next
  case (Suc fuel)
  with assms show ?case
    by (simp add: run_loop_Suc del: run_loop.simps)
qed

lemma run_loop_counted:
  assumes "\<forall>k. \<not> stop_flag_at w k" and "0 < p_loop_count p"
  shows "loop < nat (p_loop_count p) \<Longrightarrow>
     (fuel < nat (p_loop_count p) - loop \<longrightarrow> run_loop fuel w p loop t = None)
     \<and> (nat (p_loop_count p) - loop \<le> fuel \<longrightarrow>
          (\<exists>t' ext. run_loop fuel w p loop t = Some (nat (p_loop_count p), t')
             \<and> trace t' = trace t @ ext
             \<and> played ext = concat (replicate (nat (p_loop_count p) - loop) (p_events p))
             \<and> OnComplete \<notin> set ext \<and> FlagRead True \<notin> set ext))"
proof (induction fuel arbitrary: loop t)
  case 0
  then show ?case by simp
next
  case (Suc fuel)
  let ?n = "nat (p_loop_count p)"
  let ?t2 = "play_once w (p_events p)
      (t\<lparr>n_flag := Suc (n_flag t), trace := trace t @ [FlagRead False]\<rparr>)"
  from assms(1) pass_clear [of "p_events p" w t] obtain ext where
    tr: "trace ?t2 = trace t @ ext" and pl: "played ext = p_events p"
    and nc: "OnComplete \<notin> set ext" and nt: "FlagRead True \<notin> set ext"
    by blast
  show ?case
  proof (cases "p_loop_count p \<le> int (Suc loop)")
    case True
    with Suc.prems have n: "?n = Suc loop" by simp
    have "run_loop (Suc fuel) w p loop t = Some (Suc loop, ?t2)"
      using assms True by (simp add: run_loop_Suc del: run_loop.simps)
    with tr pl nc nt show ?thesis
      by (simp add: n)
  next
    case False
    then have lt: "Suc loop < ?n" by simp
    have step: "run_loop (Suc fuel) w p loop t = run_loop fuel w p (Suc loop) ?t2"
      using assms False by (simp add: run_loop_Suc del: run_loop.simps)
    have rep: "concat (replicate (?n - loop) (p_events p))
        = p_events p @ concat (replicate (?n - Suc loop) (p_events p))"
    proof -
      from lt have "?n - loop = Suc (?n - Suc loop)" by arith
      then show ?thesis by simp
    qed
    from Suc.IH [OF lt, of ?t2] have
      none: "fuel < ?n - Suc loop \<longrightarrow> run_loop fuel w p (Suc loop) ?t2 = None"
      and some: "?n - Suc loop \<le> fuel \<longrightarrow>
          (\<exists>t' ext'. run_loop fuel w p (Suc loop) ?t2 = Some (?n, t')
             \<and> trace t' = trace ?t2 @ ext'
             \<and> played ext' = concat (replicate (?n - Suc loop) (p_events p))
             \<and> OnComplete \<notin> set ext' \<and> FlagRead True \<notin> set ext')"
      by blast+
    show ?thesis
    proof (intro conjI impI)
      assume "Suc fuel < ?n - loop"
      then have "fuel < ?n - Suc loop" by simp
      with none step show "run_loop (Suc fuel) w p loop t = None" by simp
    next
      assume "?n - loop \<le> Suc fuel"
      then have "?n - Suc loop \<le> fuel" by simp
      with some obtain t' ext' where r: "run_loop fuel w p (Suc loop) ?t2 = Some (?n, t')"
        and tr': "trace t' = trace ?t2 @ ext'"
        and pl': "played ext' = concat (replicate (?n - Suc loop) (p_events p))"
        and nc': "OnComplete \<notin> set ext'" and nt': "FlagRead True \<notin> set ext'"
        by blast
      show "\<exists>t' ext. run_loop (Suc fuel) w p loop t = Some (?n, t')
             \<and> trace t' = trace t @ ext
             \<and> played ext = concat (replicate (?n - loop) (p_events p))
             \<and> OnComplete \<notin> set ext \<and> FlagRead True \<notin> set ext"
        using r tr' pl' nc' nt' tr pl nc nt step rep
        by (intro exI [of _ t'] exI [of _ "ext @ ext'"]) (simp add: played_append)
    qed
  qed
qed


lemma run_loop_stopped_after:
  assumes "\<forall>k. stop_flag_at w k \<longleftrightarrow> K \<le> k" and "p_loop_count p \<le> 0"
  shows "n_flag t + m * Suc (length (p_events p)) = K \<Longrightarrow>
     \<exists>t' ext. run_loop (Suc m) w p loop t = Some (loop + m, t')
        \<and> trace t' = trace t @ ext
        \<and> played ext = concat (replicate m (p_events p))
        \<and> OnComplete \<notin> set ext
        \<and> stop_flag_at w (n_flag t')"
proof (induction m arbitrary: loop t)
  case 0
  with assms(1) have "stop_flag_at w (n_flag t)" by simp
  moreover from assms(1) 0 have "stop_flag_at w (Suc (n_flag t))" by simp
  ultimately show ?case
    by (simp add: run_loop_Suc del: run_loop.simps)
next
  case (Suc m)
  let ?t2 = "play_once w (p_events p)
      (t\<lparr>n_flag := Suc (n_flag t), trace := trace t @ [FlagRead False]\<rparr>)"
  have "\<not> stop_flag_at w (n_flag t + i)" if "i \<le> length (p_events p)" for i
  proof -
    have "n_flag t + i < n_flag t + Suc m * Suc (length (p_events p))"
      using that by simp
    with Suc.prems assms(1) show ?thesis by simp
  qed
  then have clear: "\<forall>i\<le>length (p_events p). \<not> stop_flag_at w (n_flag t + i)"
    by blast
  from pass_clear [OF clear] obtain ext where
    nf: "n_flag ?t2 = n_flag t + Suc (length (p_events p))"
    and tr: "trace ?t2 = trace t @ ext" and pl: "played ext = p_events p"
    and nc: "OnComplete \<notin> set ext"
    by blast
  from clear have f0: "\<not> stop_flag_at w (n_flag t)" by force
  have step: "run_loop (Suc (Suc m)) w p loop t = run_loop (Suc m) w p (Suc loop) ?t2"
    using f0 assms(2) by (subst run_loop_Suc) simp
  from Suc.prems nf have "n_flag ?t2 + m * Suc (length (p_events p)) = K"
    by simp
  from Suc.IH [OF this, of "Suc loop"] obtain t' ext' where
    r: "run_loop (Suc m) w p (Suc loop) ?t2 = Some (Suc loop + m, t')"
    and tr': "trace t' = trace ?t2 @ ext'"
    and pl': "played ext' = concat (replicate m (p_events p))"
    and nc': "OnComplete \<notin> set ext'" and fl: "stop_flag_at w (n_flag t')"
    by blast
  show ?case
    using r tr' pl' nc' fl tr pl nc step
    by (intro exI [of _ t'] exI [of _ "ext @ ext'"]) (simp add: played_append)
qed

lemma run_loop_result:
  "run_loop fuel w p loop t = Some (l, t') \<Longrightarrow>
     \<exists>ext. trace t' = trace t @ ext \<and> OnComplete \<notin> set ext \<and> n_flag t \<le> n_flag t'
       \<and> (FlagRead True \<in> set ext \<longrightarrow> (\<exists>k<n_flag t'. stop_flag_at w k))"
proof (induction fuel arbitrary: loop t)
  case 0
  then show ?case by simp
next
  case (Suc fuel)
  let ?t1 = "t\<lparr>n_flag := Suc (n_flag t), trace := trace t @ [FlagRead False]\<rparr>"
  let ?t2 = "play_once w (p_events p) ?t1"
  show ?case
  proof (cases "stop_flag_at w (n_flag t)")
    case True
    with Suc.prems have "t' = t\<lparr>n_flag := Suc (n_flag t), trace := trace t @ [FlagRead True]\<rparr>"
      by (simp add: run_loop_Suc del: run_loop.simps)
    with True show ?thesis
      by (intro exI [of _ "[FlagRead True]"]) auto
  next
    case False
    from play_once_summary [of "p_events p" w ?t1] obtain m ext where
      hit: "m < length (p_events p) \<longrightarrow> stop_flag_at w (n_flag ?t1 + m)"
      and nf: "n_flag ?t2 = n_flag ?t1 + m + (if m < length (p_events p) then 1 else 0)"
      and tr: "trace ?t2 = trace ?t1 @ ext"
      and nc: "OnComplete \<notin> set ext"
      and ft: "FlagRead True \<in> set ext \<longleftrightarrow> m < length (p_events p)"
      by blast
    have seen2: "FlagRead True \<in> set ext \<longrightarrow> (\<exists>k<n_flag ?t2. stop_flag_at w k)"
    proof
      assume "FlagRead True \<in> set ext"
      with ft hit nf have "stop_flag_at w (n_flag ?t1 + m)" "n_flag ?t1 + m < n_flag ?t2"
        by simp_all
      then show "\<exists>k<n_flag ?t2. stop_flag_at w k" by blast
    qed
    have mono2: "n_flag t \<le> n_flag ?t2" using nf by simp
    show ?thesis
    proof (cases "0 < p_loop_count p \<and> p_loop_count p \<le> int (Suc loop)")
      case True
      with False Suc.prems have "t' = ?t2"
        by (simp add: run_loop_Suc_break del: run_loop.simps)
      with tr nc seen2 mono2 show ?thesis
        by (intro exI [of _ "FlagRead False # ext"]) simp
    next
      case brk: False
      from Suc.prems have "run_loop fuel w p (Suc loop) ?t2 = Some (l, t')"
        unfolding run_loop_Suc_continue [OF False brk] .
      from Suc.IH [OF this] obtain ext' where tr': "trace t' = trace ?t2 @ ext'"
        and nc': "OnComplete \<notin> set ext'" and mono': "n_flag ?t2 \<le> n_flag t'"
        and seen': "FlagRead True \<in> set ext' \<longrightarrow> (\<exists>k<n_flag t'. stop_flag_at w k)"
        by blast
      have "FlagRead True \<in> set (FlagRead False # ext @ ext')
          \<longrightarrow> (\<exists>k<n_flag t'. stop_flag_at w k)"
        using seen2 seen' mono' by (auto intro: less_le_trans)
      with tr tr' nc nc' mono2 mono' show ?thesis
        by (intro exI [of _ "FlagRead False # ext @ ext'"]) simp
    qed
  qed
qed

lemma run_loop_terminates:
  assumes "\<forall>k\<ge>K. stop_flag_at w k"
  shows "\<exists>fuel res. run_loop fuel w p loop t = Some res"
proof (induction "K - n_flag t" arbitrary: loop t rule: less_induct)
  case less
  let ?t1 = "t\<lparr>n_flag := Suc (n_flag t), trace := trace t @ [FlagRead False]\<rparr>"
  let ?t2 = "play_once w (p_events p) ?t1"
  show ?case
  proof (cases "stop_flag_at w (n_flag t)")
    case True
    then have "run_loop (Suc 0) w p loop t
        = Some (loop, t\<lparr>n_flag := Suc (n_flag t), trace := trace t @ [FlagRead True]\<rparr>)"
      by (subst run_loop_Suc) simp
    then show ?thesis by blast
  next
    case False
    with assms have below: "n_flag t < K"
      by (metis not_le_imp_less)
    show ?thesis
    proof (cases "0 < p_loop_count p \<and> p_loop_count p \<le> int (Suc loop)")
      case True
      with False have "run_loop (Suc 0) w p loop t = Some (Suc loop, ?t2)"
        by (rule run_loop_Suc_break)
      then show ?thesis by blast
    next
      case brk: False
      from play_once_summary [of "p_events p" w ?t1] have "n_flag ?t1 \<le> n_flag ?t2"
        by auto
      then have "K - n_flag ?t2 < K - n_flag t"
        using below by simp
      from less [OF this] obtain fuel res where
        "run_loop fuel w p (Suc loop) ?t2 = Some res" by blast
      then have "run_loop (Suc fuel) w p loop t = Some res"
        unfolding run_loop_Suc_continue [OF False brk] .
      then show ?thesis by blast
    qed
  qed
qed


lemma Player_run_None: "run_loop fuel w p 0 thread_init = None \<Longrightarrow> Player_run fuel w p = None"
  by (simp add: Player_run_def)

lemma Player_run_Some:
  "run_loop fuel w p 0 thread_init = Some (l, t) \<Longrightarrow>
   Player_run fuel w p =
     Some \<lparr>player = p\<lparr>p_playing := False\<rparr>, passes = l,
           final = (if p_on_complete p
                    then (if stop_flag_at w (n_flag t)
                          then t\<lparr>n_flag := Suc (n_flag t), trace := trace t @ [FlagRead True]\<rparr>
                          else t\<lparr>n_flag := Suc (n_flag t),
                                 trace := trace t @ [FlagRead False, OnComplete]\<rparr>)
                    else t)\<rparr>"
  by (simp add: Player_run_def read_flag_def emit_def Let_def)

lemma played_final:
  "played (trace (if c then (if b then t\<lparr>n_flag := n, trace := trace t @ [FlagRead True]\<rparr>
                             else t\<lparr>n_flag := n, trace := trace t @ [FlagRead False, OnComplete]\<rparr>)
                  else t)) = played (trace t)"
  by (simp add: played_append)

lemma Player_start_fresh:
  assumes "\<not> p_playing p" and "p_events p \<noteq> []"
  shows "Player_start (set_loop p count)
    = (p\<lparr>p_loop_count := max 0 count, p_playing := True, p_stop_flag := False\<rparr>, True)"
  using assms by (simp add: Player_start_def set_loop_def)

text \<open>
  Claim C4. Let \<open>q\<close> be the player after \<open>set_loop(count)\<close> and \<open>start()\<close>, called while it is not
  playing and has events; \<open>start\<close> then launches the replay thread. If \<open>count \<le> 0\<close> and the
  flag is never set, \<open>_run\<close> never returns, whatever the number of iterations allowed; if the
  flag is first seen set at the loop test after \<open>N\<close> passes, the thread has played exactly
  \<open>N\<close> full passes and leaves the player not playing; and once the flag stays set from some
  read on, \<open>_run\<close> returns. If \<open>count > 0\<close> and the flag is never set, \<open>_run\<close> returns after
  exactly \<open>count\<close> iterations, having played the timeline \<open>count\<close> times in order, and leaves
  the player not playing.
\<close>

theorem C4_loop_semantics:
  assumes "\<not> p_playing p" and "p_events p \<noteq> []"
    and "q = fst (Player_start (set_loop p count))"
  shows "snd (Player_start (set_loop p count))
   \<and> (count \<le> 0 \<and> (\<forall>k. \<not> stop_flag_at w k) \<longrightarrow> (\<forall>fuel. Player_run fuel w q = None))
   \<and> (count \<le> 0 \<and> (\<forall>k. stop_flag_at w k \<longleftrightarrow> N * Suc (length (p_events p)) \<le> k) \<longrightarrow>
        (\<exists>r. Player_run (Suc N) w q = Some r \<and> passes r = N
           \<and> played (trace (final r)) = concat (replicate N (p_events p))
           \<and> \<not> p_playing (player r)))
   \<and> (count \<le> 0 \<and> (\<exists>K. \<forall>k\<ge>K. stop_flag_at w k) \<longrightarrow>
        (\<exists>fuel r. Player_run fuel w q = Some r \<and> \<not> p_playing (player r)))
   \<and> (0 < count \<and> (\<forall>k. \<not> stop_flag_at w k) \<longrightarrow>
        (\<forall>fuel<nat count. Player_run fuel w q = None)
        \<and> (\<forall>fuel\<ge>nat count. \<exists>r. Player_run fuel w q = Some r \<and> passes r = nat count
              \<and> played (trace (final r)) = concat (replicate (nat count) (p_events p))
              \<and> \<not> p_playing (player r)))"
proof -
  have q: "p_events q = p_events p" "p_loop_count q = max 0 count"
    and launched: "snd (Player_start (set_loop p count))"
    using Player_start_fresh [OF assms(1,2), of count] by (simp_all add: assms(3))
  have forever: "\<forall>fuel. Player_run fuel w q = None"
    if "count \<le> 0 \<and> (\<forall>k. \<not> stop_flag_at w k)"
  proof
    fix fuel
    from that have "run_loop fuel w q 0 thread_init = None"
      by (intro run_loop_forever) (simp_all add: q)
    then show "Player_run fuel w q = None" by (rule Player_run_None)
  qed
  have stopped: "\<exists>r. Player_run (Suc N) w q = Some r \<and> passes r = N
           \<and> played (trace (final r)) = concat (replicate N (p_events p))
           \<and> \<not> p_playing (player r)"
    if h: "count \<le> 0 \<and> (\<forall>k. stop_flag_at w k \<longleftrightarrow> N * Suc (length (p_events p)) \<le> k)"
  proof -
    from h have fl: "\<forall>k. stop_flag_at w k \<longleftrightarrow> N * Suc (length (p_events q)) \<le> k"
      and lc: "p_loop_count q \<le> 0"
      by (simp_all add: q)
    have "n_flag thread_init + N * Suc (length (p_events q)) = N * Suc (length (p_events q))"
      by (simp add: thread_init_def)
    from run_loop_stopped_after [OF fl lc this, of 0] obtain t' ext where
      r: "run_loop (Suc N) w q 0 thread_init = Some (N, t')"
      and tr: "trace t' = trace thread_init @ ext"
      and pl: "played ext = concat (replicate N (p_events q))"
      by auto
    from tr pl have "played (trace t') = concat (replicate N (p_events p))"
      by (simp add: thread_init_def q)
    then show ?thesis
      unfolding Player_run_Some [OF r] by (simp add: played_final)
  qed
  have ends: "\<exists>fuel r. Player_run fuel w q = Some r \<and> \<not> p_playing (player r)"
    if "count \<le> 0 \<and> (\<exists>K. \<forall>k\<ge>K. stop_flag_at w k)"
  proof -
    from that obtain K where "\<forall>k\<ge>K. stop_flag_at w k" by blast
    from run_loop_terminates [OF this, of q 0 thread_init] obtain fuel l t where
      "run_loop fuel w q 0 thread_init = Some (l, t)" by auto
    from Player_run_Some [OF this]
    have "\<exists>r. Player_run fuel w q = Some r \<and> \<not> p_playing (player r)" by simp
    then show ?thesis ..
  qed
  have counted: "(\<forall>fuel<nat count. Player_run fuel w q = None)
        \<and> (\<forall>fuel\<ge>nat count. \<exists>r. Player_run fuel w q = Some r \<and> passes r = nat count
              \<and> played (trace (final r)) = concat (replicate (nat count) (p_events p))
              \<and> \<not> p_playing (player r))"
    if h: "0 < count \<and> (\<forall>k. \<not> stop_flag_at w k)"
  proof (intro conjI allI impI)
    from h have nf: "\<forall>k. \<not> stop_flag_at w k" and lc: "0 < p_loop_count q"
      and n: "nat (p_loop_count q) = nat count" and pos: "0 < nat (p_loop_count q)"
      by (simp_all add: q)
    note rl = run_loop_counted [OF nf lc pos, of _ thread_init, unfolded n]
    {
      fix fuel assume "fuel < nat count"
      with rl [of fuel] have "run_loop fuel w q 0 thread_init = None" by simp
      then show "Player_run fuel w q = None" by (rule Player_run_None)
    next
      fix fuel assume "nat count \<le> fuel"
      with rl [of fuel] obtain t' ext where
        r: "run_loop fuel w q 0 thread_init = Some (nat count, t')"
        and tr: "trace t' = trace thread_init @ ext"
        and pl: "played ext = concat (replicate (nat count) (p_events q))"
        by auto
      from tr pl have "played (trace t') = concat (replicate (nat count) (p_events p))"
        by (simp add: thread_init_def q)
      then show "\<exists>r. Player_run fuel w q = Some r \<and> passes r = nat count
              \<and> played (trace (final r)) = concat (replicate (nat count) (p_events p))
              \<and> \<not> p_playing (player r)"
        unfolding Player_run_Some [OF r] by (simp add: played_final)
    }
  qed
  from launched forever stopped ends counted show ?thesis by blast
qed


theorem C4_loop_semantics_witness:
  "Player_run 5 \<lparr>stop_flag_at = (\<lambda>k. False), perf_counter_at = (\<lambda>k. 100)\<rparr>
      (fst (Player_start (set_loop (set_events Player_init [mk_event KEY_PRESS 0]) 0))) = None
   \<and> (\<exists>r. Player_run 3 \<lparr>stop_flag_at = (\<lambda>k. 4 \<le> k), perf_counter_at = (\<lambda>k. 100)\<rparr>
          (fst (Player_start (set_loop (set_events Player_init [mk_event KEY_PRESS 0]) 0)))
          = Some r
        \<and> passes r = 2
        \<and> played (trace (final r)) = [mk_event KEY_PRESS 0, mk_event KEY_PRESS 0]
        \<and> \<not> p_playing (player r))
   \<and> (\<exists>r. Player_run 3 \<lparr>stop_flag_at = (\<lambda>k. False), perf_counter_at = (\<lambda>k. 100)\<rparr>
          (fst (Player_start (set_loop (set_events Player_init [mk_event KEY_PRESS 0]) 3)))
          = Some r
        \<and> passes r = 3
        \<and> played (trace (final r))
            = [mk_event KEY_PRESS 0, mk_event KEY_PRESS 0, mk_event KEY_PRESS 0]
        \<and> \<not> p_playing (player r))"
proof -
  let ?p = "set_events Player_init [mk_event KEY_PRESS 0]"
  let ?never = "\<lparr>stop_flag_at = (\<lambda>k. False), perf_counter_at = (\<lambda>k. 100)\<rparr>"
  let ?later = "\<lparr>stop_flag_at = (\<lambda>k. 4 \<le> k), perf_counter_at = (\<lambda>k. 100)\<rparr>"
  have idle: "\<not> p_playing ?p" and ev: "p_events ?p = [mk_event KEY_PRESS 0]"
    by (simp_all add: set_events_def Player_init_def)
  from ev have ne: "p_events ?p \<noteq> []" by simp
  have h1: "(0::int) \<le> 0 \<and> (\<forall>k. \<not> stop_flag_at ?never k)"
    by simp
  have h2: "(0::int) \<le> 0 \<and> (\<forall>k. stop_flag_at ?later k \<longleftrightarrow> 2 * Suc (length (p_events ?p)) \<le> k)"
    by (simp add: ev)
  have h3: "(0::int) < 3 \<and> (\<forall>k. \<not> stop_flag_at ?never k)"
    by simp
  have 1: "Player_run 5 ?never (fst (Player_start (set_loop ?p 0))) = None"
    using C4_loop_semantics [OF idle ne refl, of 0 ?never 0] h1 by blast
  have "\<exists>r. Player_run (Suc 2) ?later (fst (Player_start (set_loop ?p 0))) = Some r
        \<and> passes r = 2
        \<and> played (trace (final r)) = concat (replicate 2 (p_events ?p))
        \<and> \<not> p_playing (player r)"
    using C4_loop_semantics [OF idle ne refl, of 0 ?later 2] h2 by blast
  moreover have "Suc 2 = 3"
    and "concat (replicate 2 (p_events ?p)) = [mk_event KEY_PRESS 0, mk_event KEY_PRESS 0]"
    by (simp_all add: ev numeral_2_eq_2)
  ultimately have 2: "\<exists>r. Player_run 3 ?later (fst (Player_start (set_loop ?p 0))) = Some r
        \<and> passes r = 2
        \<and> played (trace (final r)) = [mk_event KEY_PRESS 0, mk_event KEY_PRESS 0]
        \<and> \<not> p_playing (player r)"
    by simp
  have "\<exists>r. Player_run 3 ?never (fst (Player_start (set_loop ?p 3))) = Some r
        \<and> passes r = nat 3
        \<and> played (trace (final r)) = concat (replicate (nat 3) (p_events ?p))
        \<and> \<not> p_playing (player r)"
    using C4_loop_semantics [OF idle ne refl, of 3 ?never 0] h3 by simp
  moreover have "nat 3 = 3"
    and "concat (replicate (nat 3) (p_events ?p))
      = [mk_event KEY_PRESS 0, mk_event KEY_PRESS 0, mk_event KEY_PRESS 0]"
    by (simp_all add: ev numeral_3_eq_3)
  ultimately have 3: "\<exists>r. Player_run 3 ?never (fst (Player_start (set_loop ?p 3))) = Some r
        \<and> passes r = 3
        \<and> played (trace (final r))
            = [mk_event KEY_PRESS 0, mk_event KEY_PRESS 0, mk_event KEY_PRESS 0]
        \<and> \<not> p_playing (player r)"
    by simp
  from 1 2 3 show ?thesis by blast
qed

lemma Player_run_cases:
  assumes "Player_run fuel w p = Some r"
  obtains l t where "run_loop fuel w p 0 thread_init = Some (l, t)"
    and "player r = p\<lparr>p_playing := False\<rparr>" and "passes r = l"
    and "final r = (if p_on_complete p
                    then (if stop_flag_at w (n_flag t)
                          then t\<lparr>n_flag := Suc (n_flag t), trace := trace t @ [FlagRead True]\<rparr>
                          else t\<lparr>n_flag := Suc (n_flag t),
                                 trace := trace t @ [FlagRead False, OnComplete]\<rparr>)
                    else t)"
    and "OnComplete \<notin> set (trace t)"
    and "FlagRead True \<in> set (trace t) \<longrightarrow> (\<exists>k<n_flag t. stop_flag_at w k)"
proof -
  from assms obtain l t where r: "run_loop fuel w p 0 thread_init = Some (l, t)"
    by (auto simp: Player_run_def split: option.splits)
  from run_loop_result [OF r] have "OnComplete \<notin> set (trace t)"
    and "FlagRead True \<in> set (trace t) \<longrightarrow> (\<exists>k<n_flag t. stop_flag_at w k)"
    by (auto simp: thread_init_def)
  moreover from assms have "player r = p\<lparr>p_playing := False\<rparr>" "passes r = l"
    "final r = (if p_on_complete p
                then (if stop_flag_at w (n_flag t)
                      then t\<lparr>n_flag := Suc (n_flag t), trace := trace t @ [FlagRead True]\<rparr>
                      else t\<lparr>n_flag := Suc (n_flag t),
                             trace := trace t @ [FlagRead False, OnComplete]\<rparr>)
                else t)"
    unfolding Player_run_Some [OF r] by auto
  ultimately show ?thesis using r that by blast
qed

text \<open>
  Claim C5. Every run that returns leaves the player not playing, and the number of calls of
  \<open>on_complete\<close> in it is one if a callback is registered and the flag is clear at the last
  read of the run (the completion check), and zero otherwise. Where \<open>stop\<close> is never called
  (the flag clear at every read), a callback is registered and the loop count is \<open>n > 0\<close>, the
  run returns under every iteration bound of at least \<open>n\<close>, after exactly \<open>n\<close> passes that
  hand every event of the timeline to \<open>_play_event\<close>, \<open>n\<close> times over and in order, and
  \<open>on_complete\<close> is called exactly once, as the last step. Where \<open>stop\<close> sets the flag before
  the read number \<open>K\<close> of the replay thread (clear at the reads before, set from then on: during
  a run only \<open>stop\<close> writes the flag), the run returns; and if the thread made that read,
  \<open>on_complete\<close> is not called and the player is left not playing.
\<close>

theorem C5_completion_vs_cancellation:
  "(Player_run fuel w p = Some r \<longrightarrow>
      \<not> p_playing (player r)
      \<and> count_list (trace (final r)) OnComplete
          = (if p_on_complete p \<and> \<not> stop_flag_at w (n_flag (final r) - 1) then 1 else 0))
   \<and> (p_on_complete p \<and> 0 < p_loop_count p \<longrightarrow>
        (\<forall>fuel'. nat (p_loop_count p) \<le> fuel' \<longrightarrow>
           (\<exists>r' steps. Player_run fuel' (w\<lparr>stop_flag_at := (\<lambda>k. False)\<rparr>) p = Some r'
              \<and> passes r' = nat (p_loop_count p)
              \<and> trace (final r') = steps @ [OnComplete]
              \<and> played steps = concat (replicate (nat (p_loop_count p)) (p_events p))
              \<and> OnComplete \<notin> set steps
              \<and> \<not> p_playing (player r'))))
   \<and> (\<exists>fuel' r'. Player_run fuel' (w\<lparr>stop_flag_at := (\<lambda>k. K \<le> k)\<rparr>) p = Some r'
          \<and> \<not> p_playing (player r'))
   \<and> (Player_run fuelc (w\<lparr>stop_flag_at := (\<lambda>k. K \<le> k)\<rparr>) p = Some rc
        \<and> K < n_flag (final rc) \<longrightarrow>
        OnComplete \<notin> set (trace (final rc)) \<and> \<not> p_playing (player rc))"
proof -
  have always: "\<not> p_playing (player r)
      \<and> count_list (trace (final r)) OnComplete
          = (if p_on_complete p \<and> \<not> stop_flag_at w (n_flag (final r) - 1) then 1 else 0)"
    if run: "Player_run fuel w p = Some r" for fuel w r
  proof -
    from run obtain l t where pl: "player r = p\<lparr>p_playing := False\<rparr>"
      and fin: "final r = (if p_on_complete p
                    then (if stop_flag_at w (n_flag t)
                          then t\<lparr>n_flag := Suc (n_flag t), trace := trace t @ [FlagRead True]\<rparr>
                          else t\<lparr>n_flag := Suc (n_flag t),
                                 trace := trace t @ [FlagRead False, OnComplete]\<rparr>)
                    else t)"
      and nc: "OnComplete \<notin> set (trace t)"
      by (rule Player_run_cases)
    from nc show ?thesis
      by (simp add: pl fin count_list_0_iff)
  qed
  let ?never = "w\<lparr>stop_flag_at := (\<lambda>k. False)\<rparr>"
  let ?stop = "w\<lparr>stop_flag_at := (\<lambda>k. K \<le> k)\<rparr>"
  have natural: "\<exists>r' steps. Player_run fuel' ?never p = Some r'
              \<and> passes r' = nat (p_loop_count p)
              \<and> trace (final r') = steps @ [OnComplete]
              \<and> played steps = concat (replicate (nat (p_loop_count p)) (p_events p))
              \<and> OnComplete \<notin> set steps
              \<and> \<not> p_playing (player r')"
    if h: "p_on_complete p \<and> 0 < p_loop_count p"
      and fuel: "nat (p_loop_count p) \<le> fuel'" for fuel'
  proof -
    from h have lc: "0 < p_loop_count p"
      and pos: "0 < nat (p_loop_count p)" and oc: "p_on_complete p" by simp_all
    have nf: "\<forall>k. \<not> stop_flag_at ?never k" by simp
    from run_loop_counted [OF nf lc pos, of fuel' thread_init] fuel
    obtain t' ext where r: "run_loop fuel' ?never p 0 thread_init = Some (nat (p_loop_count p), t')"
      and tr: "trace t' = trace thread_init @ ext"
      and pl: "played ext = concat (replicate (nat (p_loop_count p)) (p_events p))"
      and nc: "OnComplete \<notin> set ext"
      by auto
    let ?r = "\<lparr>player = p\<lparr>p_playing := False\<rparr>, passes = nat (p_loop_count p),
               final = t'\<lparr>n_flag := Suc (n_flag t'),
                          trace := trace t' @ [FlagRead False, OnComplete]\<rparr>\<rparr>"
    have run: "Player_run fuel' ?never p = Some ?r"
      using Player_run_Some [OF r] oc by simp
    have "trace (final ?r) = (ext @ [FlagRead False]) @ [OnComplete]"
      by (simp add: tr thread_init_def)
    moreover have "played (ext @ [FlagRead False])
        = concat (replicate (nat (p_loop_count p)) (p_events p))"
      by (simp add: played_append pl)
    moreover have "OnComplete \<notin> set (ext @ [FlagRead False])"
      using nc by simp
    ultimately show ?thesis
      using run by (intro exI [of _ ?r] exI [of _ "ext @ [FlagRead False]"]) simp
  qed
  have ends: "\<exists>fuel' r'. Player_run fuel' ?stop p = Some r' \<and> \<not> p_playing (player r')"
  proof -
    have "\<forall>k\<ge>K. stop_flag_at ?stop k" by simp
    from run_loop_terminates [OF this, of p 0 thread_init] obtain fuel' l t where
      "run_loop fuel' ?stop p 0 thread_init = Some (l, t)" by auto
    from Player_run_Some [OF this]
    have "\<exists>r. Player_run fuel' ?stop p = Some r \<and> \<not> p_playing (player r)" by simp
    then show ?thesis ..
  qed
  have cancelled: "OnComplete \<notin> set (trace (final rc)) \<and> \<not> p_playing (player rc)"
    if h: "Player_run fuelc ?stop p = Some rc \<and> K < n_flag (final rc)"
  proof -
    from h have run: "Player_run fuelc ?stop p = Some rc" and seen: "K < n_flag (final rc)"
      by simp_all
    from seen have "stop_flag_at ?stop (n_flag (final rc) - 1)" by simp
    with always [OF run] have "count_list (trace (final rc)) OnComplete = 0"
      and "\<not> p_playing (player rc)" by simp_all
    then show ?thesis by (simp add: count_list_0_iff)
  qed
  from always [of fuel w r] natural ends cancelled show ?thesis by blast
qed

theorem C5_completion_vs_cancellation_witness:
  "(\<exists>r. Player_run 2 \<lparr>stop_flag_at = (\<lambda>k. False), perf_counter_at = (\<lambda>k. 100)\<rparr>
        ((set_loop (set_events Player_init [mk_event KEY_PRESS 0]) 2)\<lparr>p_on_complete := True\<rparr>)
          = Some r
      \<and> passes r = 2
      \<and> played (trace (final r)) = [mk_event KEY_PRESS 0, mk_event KEY_PRESS 0]
      \<and> count_list (trace (final r)) OnComplete = 1
      \<and> \<not> p_playing (player r))
   \<and> (\<exists>r. Player_run 2 \<lparr>stop_flag_at = (\<lambda>k. 1 \<le> k), perf_counter_at = (\<lambda>k. 100)\<rparr>
        ((set_loop (set_events Player_init [mk_event KEY_PRESS 0]) 2)\<lparr>p_on_complete := True\<rparr>)
          = Some r
      \<and> passes r = 1
      \<and> FlagRead True \<in> set (trace (final r))
      \<and> OnComplete \<notin> set (trace (final r))
      \<and> \<not> p_playing (player r))"
proof -
  let ?p = "(set_loop (set_events Player_init [mk_event KEY_PRESS 0]) 2)\<lparr>p_on_complete := True\<rparr>"
  let ?w = "\<lparr>stop_flag_at = (\<lambda>k. False), perf_counter_at = (\<lambda>k. 100)\<rparr>"
  let ?never = "?w\<lparr>stop_flag_at := (\<lambda>k. False)\<rparr>"
  let ?stop = "?w\<lparr>stop_flag_at := (\<lambda>k. 1 \<le> k)\<rparr>"
  let ?rc = "\<lparr>player = ?p\<lparr>p_playing := False\<rparr>, passes = 1,
            final = \<lparr>n_flag = 4, n_clock = 1,
                      trace = [FlagRead False, FlagRead True, FlagRead True, FlagRead True]\<rparr>\<rparr>"
  have p: "p_on_complete ?p" "p_loop_count ?p = 2" "p_events ?p = [mk_event KEY_PRESS 0]"
    by (simp_all add: set_loop_def set_events_def Player_init_def)
  have runc: "Player_run 2 ?stop ?p = Some ?rc"
    by (simp add: Player_run_def set_loop_def set_events_def Player_init_def thread_init_def
        read_flag_def read_clock_def emit_def play_once_def mk_event_def Let_def numeral_2_eq_2)
  have hc: "Player_run 2 ?stop ?p = Some ?rc \<and> 1 < n_flag (final ?rc)"
    using runc by simp
  have h1: "p_on_complete ?p \<and> 0 < p_loop_count ?p"
    by (simp add: p)
  from C5_completion_vs_cancellation [of 2 ?w ?p ?rc 1 2 ?rc] h1
  obtain r' steps where run: "Player_run 2 ?never ?p = Some r'"
    and n: "passes r' = 2"
    and tr: "trace (final r') = steps @ [OnComplete]"
    and pl: "played steps = [mk_event KEY_PRESS 0, mk_event KEY_PRESS 0]"
    and nc: "OnComplete \<notin> set steps"
    by (auto simp: p numeral_2_eq_2)
  from C5_completion_vs_cancellation [of 2 ?never ?p r' 1 2 ?rc] run
  have idle: "\<not> p_playing (player r')"
    and cnt: "count_list (trace (final r')) OnComplete = 1"
    by (simp_all add: p tr)
  have 1: "\<exists>r. Player_run 2 ?w ?p = Some r \<and> passes r = 2
      \<and> played (trace (final r)) = [mk_event KEY_PRESS 0, mk_event KEY_PRESS 0]
      \<and> count_list (trace (final r)) OnComplete = 1 \<and> \<not> p_playing (player r)"
    using run n pl idle cnt by (intro exI [of _ r']) (simp add: tr played_append)
  from C5_completion_vs_cancellation [of 2 ?w ?p ?rc 1 2 ?rc] hc
  have "OnComplete \<notin> set (trace (final ?rc)) \<and> \<not> p_playing (player ?rc)"
    by blast
  with runc have 2: "\<exists>r. Player_run 2 ?stop ?p = Some r \<and> passes r = 1
      \<and> FlagRead True \<in> set (trace (final r))
      \<and> OnComplete \<notin> set (trace (final r)) \<and> \<not> p_playing (player r)"
    by (intro exI [of _ ?rc]) simp
  from 1 2 show ?thesis by simp
qed

section \<open>Waiting between events\<close>




end
